theory Spec2Isabelle
  imports Main
begin

section \<open>Parsed HTML (package golang.org/x/net/html)\<close>

text \<open>
  The scraper walks the tree that \<^verbatim>\<open>html.Parse\<close> returns. A node has a type, a
  \<^verbatim>\<open>Data\<close> string (the tag name of an element, the content of a text node), a list of
  attributes and its children; the source reaches the children through
  \<^verbatim>\<open>FirstChild\<close> and \<^verbatim>\<open>NextSibling\<close>, that is, in order.
\<close>

datatype node_type =
  ErrorNode | TextNode | DocumentNode | ElementNode | CommentNode | DoctypeNode | RawNode

record attribute =
  Namespace :: string
  Key :: string
  Val :: string

datatype node = Node (Type: node_type) (Data: string) (Attr: "attribute list") (Children: "node list")

section \<open>The standard library the scraper calls\<close>

text \<open>
  Packages \<^verbatim>\<open>net/url\<close>, \<^verbatim>\<open>net/http\<close>, \<^verbatim>\<open>path/filepath\<close>, \<^verbatim>\<open>os\<close>,
  \<^verbatim>\<open>io/ioutil\<close> and the HTML parser are not part of the repository. They are taken as
  parameters: a record of functions, one per call the source makes. The type \<open>'u\<close>
  stands for \<^verbatim>\<open>*url.URL\<close>. A call that returns an error in Go returns \<open>None\<close>
  (or \<open>False\<close>) here. Every URL is requested at most once in a crawl (proved
  below), so a response that is a function of the URL loses no behaviour of a single
  crawl. The storage calls are functions of their arguments as well: the state of the
  file system is not modelled, only whether each call succeeds.
\<close>

record response =
  StatusCode :: int
  Body :: "string option"  \<comment> \<open>\<open>None\<close>: \<^verbatim>\<open>ioutil.ReadAll(resp.Body)\<close> fails\<close>

record 'u world =
  url_Parse :: "string \<Rightarrow> 'u option"
  url_Host :: "'u \<Rightarrow> string"
  url_Path :: "'u \<Rightarrow> string"
  url_ResolveReference :: "'u \<Rightarrow> 'u \<Rightarrow> 'u"
  url_String :: "'u \<Rightarrow> string"
  http_Get :: "string \<Rightarrow> response option"
  filepath_Ext :: "string \<Rightarrow> string"
  filepath_Join :: "string list \<Rightarrow> string"
  filepath_Dir :: "string \<Rightarrow> string"
  os_MkdirAll :: "string \<Rightarrow> bool"
  ioutil_WriteFile :: "string \<Rightarrow> string \<Rightarrow> bool"
  html_Parse :: "string \<Rightarrow> node option"

section \<open>Link and text extraction\<close>

text \<open>\<^verbatim>\<open>resolveURL\<close>: the empty string when either URL does not parse.\<close>

definition resolveURL :: "'u world \<Rightarrow> string \<Rightarrow> string \<Rightarrow> string" where
  "resolveURL W baseURL relativeURL =
     (case url_Parse W baseURL of
        None \<Rightarrow> []
      | Some base \<Rightarrow>
          (case url_Parse W relativeURL of
             None \<Rightarrow> []
           | Some rel \<Rightarrow> url_String W (url_ResolveReference W base rel)))"

text \<open>
  The two attribute loops of \<^verbatim>\<open>extractLinks\<close> differ only in the test on the
  attribute; \<open>attr_loop\<close> is that loop, appending to \<open>links\<close>.
\<close>

fun attr_loop ::
  "'u world \<Rightarrow> (attribute \<Rightarrow> bool) \<Rightarrow> string \<Rightarrow> attribute list \<Rightarrow> string list \<Rightarrow> string list"
where
  "attr_loop W wanted baseURL [] links = links"
| "attr_loop W wanted baseURL (a # rest) links =
     attr_loop W wanted baseURL rest
       (if wanted a
        then (let resolvedURL = resolveURL W baseURL (Val a)
              in if resolvedURL \<noteq> [] then links @ [resolvedURL] else links)
        else links)"

definition own_links ::
  "'u world \<Rightarrow> node_type \<Rightarrow> string \<Rightarrow> attribute list \<Rightarrow> string \<Rightarrow> string list"
where
  "own_links W t d attrs baseURL =
     (if t = ElementNode then
        (if d = ''a'' then attr_loop W (\<lambda>a. Key a = ''href'') baseURL attrs []
         else if d = ''img'' \<or> d = ''script'' \<or> d = ''link'' then
           attr_loop W
             (\<lambda>a. (d = ''link'' \<and> Key a = ''href'') \<or> (d \<noteq> ''link'' \<and> Key a = ''src''))
             baseURL attrs []
         else [])
      else [])"

fun extractLinks :: "'u world \<Rightarrow> node \<Rightarrow> string \<Rightarrow> string list" where
  "extractLinks W (Node t d attrs cs) baseURL =
     own_links W t d attrs baseURL @ concat (map (\<lambda>c. extractLinks W c baseURL) cs)"

text \<open>
  \<^verbatim>\<open>extractText\<close>: the closure \<open>f\<close> writes into a \<^verbatim>\<open>strings.Builder\<close>; here the
  builder's content is passed along.
\<close>

fun extractText_f :: "node \<Rightarrow> string \<Rightarrow> string" where
  "extractText_f (Node t d attrs cs) b =
     (let b1 = (if t = TextNode then b @ d else b)
      in if t = ElementNode \<and> (d = ''script'' \<or> d = ''style'') then b1
         else fold extractText_f cs b1)"

definition extractText :: "node \<Rightarrow> string" where
  "extractText n = extractText_f n []"

section \<open>Fetching and processing one page\<close>

record Doc =
  Name :: string
  Version :: string
  URL :: string

text \<open>
  What a call of \<^verbatim>\<open>DownloadDoc\<close> is given: the scraper's download path, the
  documentation entry, the depth bound, and the visited map as the scraper holds it when
  the call starts (\<^verbatim>\<open>NewScraper\<close> makes it empty; a map lookup of a missing key is
  \<open>False\<close>).
\<close>

record crawl =
  DownloadPath :: string
  doc :: Doc
  maxDepth :: int
  visitedURLs0 :: "string \<Rightarrow> bool"

definition TrimPrefix :: "string \<Rightarrow> string \<Rightarrow> string" where
  "TrimPrefix s p = (if take (length p) s = p then drop (length p) s else s)"

definition HasSuffix :: "string \<Rightarrow> string \<Rightarrow> bool" where
  "HasSuffix s suffix =
     (length suffix \<le> length s \<and> drop (length s - length suffix) s = suffix)"

definition colons_to_underscores :: "string \<Rightarrow> string" where
  "colons_to_underscores s = map (\<lambda>c. if c = CHR '':'' then CHR ''_'' else c) s"

definition relativePath_of :: "'u world \<Rightarrow> 'u \<Rightarrow> string \<Rightarrow> string" where
  "relativePath_of W parsedURL initialHost =
     (let r0 = url_Host W parsedURL @ url_Path W parsedURL;
          r1 = TrimPrefix r0 initialHost;
          r2 = TrimPrefix r1 ''/'';
          r3 = colons_to_underscores r2
      in if HasSuffix r3 ''/'' \<or> r3 = [] then r3 @ ''index.html''
         else if filepath_Ext W r3 = [] then r3 @ ''.html''
         else r3)"

datatype fetch_error =
  GetError | ReadError | StatusError int | ParseURLError | MkdirError | WriteError
  | ParseHTMLError

text \<open>
  The body of \<^verbatim>\<open>fetchAndProcess\<close> up to the loop over the links: every early
  \<^verbatim>\<open>return\<close> of the source is an \<open>Inl\<close>, in the source's order. On success it gives
  the path the page was saved under, the text handed to \<^verbatim>\<open>Indexer.AddDocument\<close>
  (whose error the source drops) and the extracted links. Log lines are not modelled.
\<close>

definition fetchAndProcess_io ::
  "'u world \<Rightarrow> crawl \<Rightarrow> string \<Rightarrow> string \<Rightarrow> fetch_error + (string \<times> string \<times> string list)"
where
  "fetchAndProcess_io W C currentURL initialHost =
     (case http_Get W currentURL of
        None \<Rightarrow> Inl GetError
      | Some resp \<Rightarrow>
     (case Body resp of
        None \<Rightarrow> Inl ReadError
      | Some body \<Rightarrow>
     if StatusCode resp \<noteq> 200 then Inl (StatusError (StatusCode resp))
     else
     (case url_Parse W currentURL of
        None \<Rightarrow> Inl ParseURLError
      | Some parsedURL \<Rightarrow>
     (let relativePath = relativePath_of W parsedURL initialHost;
          filePath = filepath_Join W
            [DownloadPath C, Name (doc C), Version (doc C), relativePath];
          dir = filepath_Dir W filePath
      in if \<not> os_MkdirAll W dir then Inl MkdirError
         else if \<not> ioutil_WriteFile W filePath body then Inl WriteError
         else
     (case html_Parse W body of
        None \<Rightarrow> Inl ParseHTMLError
      | Some htmlDoc \<Rightarrow>
          Inr (filePath, extractText htmlDoc, extractLinks W htmlDoc currentURL))))))"

section \<open>The crawl as a transition system\<close>

text \<open>
  \<^verbatim>\<open>DownloadDoc\<close> runs three kinds of goroutines over shared state: the caller's own
  loop over the queue (\<open>Main\<close>), the anonymous goroutine that sends the seed, waits for
  the wait group and closes the queue (\<open>Seeder\<close>), and one \<^verbatim>\<open>fetchAndProcess\<close> per
  dispatched task (\<open>Worker i\<close>, numbered in dispatch order). A state holds the shared
  variables and each goroutine's position; a step is one goroutine doing its next
  operation on the shared state, and is not enabled where that operation blocks (a
  receive from the empty open queue, a send to the full queue, a lock of the held mutex,
  a wait on a non-zero counter). The schedule is arbitrary.

  A depth is a Go \<^verbatim>\<open>int\<close>, here an unbounded \<open>int\<close>: a task's depth is at most the
  number of pages fetched before it, so it stays far from the machine bound. The index
  is written through \<^verbatim>\<open>Indexer.AddDocument\<close> only; the state records those calls.
\<close>

datatype task = Task (url: string) (depth: int)

datatype crawl_error = InvalidInitialURL

datatype seeder_pc =
  SSend     \<comment> \<open>about to send the seed (line 60)\<close>
  | SWait   \<comment> \<open>in \<^verbatim>\<open>s.wg.Wait()\<close> (line 66)\<close>
  | SClose  \<comment> \<open>about to \<^verbatim>\<open>close(queue)\<close> (line 67)\<close>
  | SExit

datatype main_pc =
  MRecv             \<comment> \<open>at \<^verbatim>\<open>for current := range queue\<close> (line 70)\<close>
  | MLock task      \<comment> \<open>at \<^verbatim>\<open>s.mu.Lock()\<close> (line 71)\<close>
  | MCheck task     \<comment> \<open>holds the mutex, at the visited test (line 72)\<close>
  | MDepth task     \<comment> \<open>claimed and unlocked, at the depth test (line 80)\<close>
  | MDone task      \<comment> \<open>about to \<^verbatim>\<open>s.wg.Done()\<close> and \<^verbatim>\<open>continue\<close> (lines 74, 81)\<close>
  | MReturned "crawl_error option"

datatype worker_pc =
  WFetch                       \<comment> \<open>before \<^verbatim>\<open>http.Get\<close> (line 96)\<close>
  | WLinks "string list"       \<comment> \<open>loop over the remaining links (line 162)\<close>
  | WHold string "string list" \<comment> \<open>holds the mutex, at the visited test (line 170)\<close>
  | WSend string "string list" \<comment> \<open>holds the mutex, counter incremented, at the send (line 172)\<close>
  | WUnlock "string list"      \<comment> \<open>sent, about to unlock (line 180)\<close>
  | WExit                      \<comment> \<open>returning: the deferred \<^verbatim>\<open>s.wg.Done()\<close> is next\<close>
  | WDone

record worker =
  currentURL :: string
  currentDepth :: int
  pc :: worker_pc

record state =
  queue :: "task list"
  closed :: bool
  visitedURLs :: "string \<Rightarrow> bool"
  wg :: int
  mu :: bool
  panicked :: bool
  seeder :: seeder_pc
  main :: main_pc
  workers :: "worker list"
  indexed :: "(string \<times> string) list"

text \<open>The queue is \<^verbatim>\<open>make(chan ..., 100)\<close>.\<close>

definition queue_cap :: nat where
  "queue_cap = 100"

definition initialHost :: "'u world \<Rightarrow> crawl \<Rightarrow> string" where
  "initialHost W C = (case url_Parse W (URL (doc C)) of None \<Rightarrow> [] | Some initialURL \<Rightarrow> url_Host W initialURL)"

text \<open>
  The state when the loop is reached, or, when the seed does not parse, the state in which
  \<^verbatim>\<open>DownloadDoc\<close> has returned its error before starting anything.
\<close>

definition init :: "'u world \<Rightarrow> crawl \<Rightarrow> state" where
  "init W C =
     (case url_Parse W (URL (doc C)) of
        None \<Rightarrow>
          \<lparr>queue = [], closed = False, visitedURLs = visitedURLs0 C, wg = 0, mu = False,
           panicked = False, seeder = SExit, main = MReturned (Some InvalidInitialURL),
           workers = [], indexed = []\<rparr>
      | Some initialURL \<Rightarrow>
          \<lparr>queue = [], closed = False, visitedURLs = visitedURLs0 C, wg = 1, mu = False,
           panicked = False, seeder = SSend, main = MRecv, workers = [], indexed = []\<rparr>)"

text \<open>\<^verbatim>\<open>wg.Done()\<close> panics when the counter would become negative.\<close>

definition wg_Done :: "state \<Rightarrow> state" where
  "wg_Done s = (if wg s \<le> 0 then s\<lparr>panicked := True\<rparr> else s\<lparr>wg := wg s - 1\<rparr>)"

definition seeder_step :: "crawl \<Rightarrow> state \<Rightarrow> state option" where
  "seeder_step C s =
     (case seeder s of
        SSend \<Rightarrow>
          if length (queue s) < queue_cap
          then Some (s\<lparr>queue := queue s @ [Task (URL (doc C)) 0], seeder := SWait\<rparr>)
          else None
      | SWait \<Rightarrow> if wg s = 0 then Some (s\<lparr>seeder := SClose\<rparr>) else None
      | SClose \<Rightarrow> Some (s\<lparr>closed := True, seeder := SExit\<rparr>)
      | SExit \<Rightarrow> None)"

definition main_step :: "crawl \<Rightarrow> state \<Rightarrow> state option" where
  "main_step C s =
     (case main s of
        MRecv \<Rightarrow>
          (case queue s of
             current # rest \<Rightarrow> Some (s\<lparr>queue := rest, main := MLock current\<rparr>)
           | [] \<Rightarrow> if closed s then Some (s\<lparr>main := MReturned None\<rparr>) else None)
      | MLock current \<Rightarrow>
          if mu s then None else Some (s\<lparr>mu := True, main := MCheck current\<rparr>)
      | MCheck current \<Rightarrow>
          if visitedURLs s (url current)
          then Some (s\<lparr>mu := False, main := MDone current\<rparr>)
          else Some (s\<lparr>visitedURLs := (visitedURLs s)(url current := True), mu := False,
                       main := MDepth current\<rparr>)
      | MDepth current \<Rightarrow>
          if maxDepth C < depth current then Some (s\<lparr>main := MDone current\<rparr>)
          else Some (s\<lparr>workers := workers s @
                         [\<lparr>currentURL = url current, currentDepth = depth current, pc = WFetch\<rparr>],
                       main := MRecv\<rparr>)
      | MDone current \<Rightarrow> Some ((wg_Done s)\<lparr>main := MRecv\<rparr>)
      | MReturned r \<Rightarrow> None)"

definition set_pc :: "nat \<Rightarrow> worker_pc \<Rightarrow> state \<Rightarrow> state" where
  "set_pc i p s = s\<lparr>workers := (workers s)[i := (workers s ! i)\<lparr>pc := p\<rparr>]\<rparr>"

definition worker_step :: "'u world \<Rightarrow> crawl \<Rightarrow> nat \<Rightarrow> state \<Rightarrow> state option" where
  "worker_step W C i s =
     (if length (workers s) \<le> i then None
      else
        (case pc (workers s ! i) of
           WFetch \<Rightarrow>
             (case fetchAndProcess_io W C (currentURL (workers s ! i)) (initialHost W C) of
                Inl e \<Rightarrow> Some (set_pc i WExit s)
              | Inr (filePath, plainText, links) \<Rightarrow>
                  Some (set_pc i (WLinks links)
                          (s\<lparr>indexed := indexed s @ [(filePath, plainText)]\<rparr>)))
         | WLinks links \<Rightarrow>
             (case links of
                [] \<Rightarrow> Some (set_pc i WExit s)
              | link # rest \<Rightarrow>
                  (case url_Parse W link of
                     None \<Rightarrow> Some (set_pc i (WLinks rest) s)
                   | Some parsedLink \<Rightarrow>
                       if url_Host W parsedLink = initialHost W C
                       then (if mu s then None
                             else Some (set_pc i (WHold link rest) (s\<lparr>mu := True\<rparr>)))
                       else Some (set_pc i (WLinks rest) s)))
         | WHold link rest \<Rightarrow>
             if visitedURLs s link then Some (set_pc i (WLinks rest) (s\<lparr>mu := False\<rparr>))
             else Some (set_pc i (WSend link rest) (s\<lparr>wg := wg s + 1\<rparr>))
         | WSend link rest \<Rightarrow>
             if closed s then Some (s\<lparr>panicked := True\<rparr>)
             else if length (queue s) < queue_cap
             then Some (set_pc i (WUnlock rest)
                          (s\<lparr>queue := queue s @ [Task link (currentDepth (workers s ! i) + 1)]\<rparr>))
             else None
         | WUnlock rest \<Rightarrow> Some (set_pc i (WLinks rest) (s\<lparr>mu := False\<rparr>))
         | WExit \<Rightarrow> Some (set_pc i WDone (wg_Done s))
         | WDone \<Rightarrow> None))"

datatype actor = Seeder | Main | Worker nat

text \<open>A panic ends the program: nothing runs after it.\<close>

definition step_fn :: "'u world \<Rightarrow> crawl \<Rightarrow> actor \<Rightarrow> state \<Rightarrow> state option" where
  "step_fn W C a s =
     (if panicked s then None
      else (case a of
              Seeder \<Rightarrow> seeder_step C s
            | Main \<Rightarrow> main_step C s
            | Worker i \<Rightarrow> worker_step W C i s))"

inductive reachable :: "'u world \<Rightarrow> crawl \<Rightarrow> state \<Rightarrow> bool" for W C where
  reach_init: "reachable W C (init W C)"
| reach_step: "reachable W C s \<Longrightarrow> step_fn W C a s = Some s' \<Longrightarrow> reachable W C s'"

text \<open>Running a given schedule; \<open>None\<close> when it asks a blocked goroutine to move.\<close>

fun run :: "'u world \<Rightarrow> crawl \<Rightarrow> actor list \<Rightarrow> state \<Rightarrow> state option" where
  "run W C [] s = Some s"
| "run W C (a # sched) s =
     (case step_fn W C a s of None \<Rightarrow> None | Some s' \<Rightarrow> run W C sched s')"

text \<open>The URLs \<^verbatim>\<open>fetchAndProcess\<close> was started on, and those it has requested.\<close>

definition invoked :: "state \<Rightarrow> string list" where
  "invoked s = map currentURL (workers s)"

definition fetched :: "state \<Rightarrow> string list" where
  "fetched s = map currentURL (filter (\<lambda>w. pc w \<noteq> WFetch) (workers s))"

text \<open>No goroutine can move, and \<^verbatim>\<open>DownloadDoc\<close> has not returned.\<close>

definition returned :: "state \<Rightarrow> bool" where
  "returned s = (case main s of MReturned r \<Rightarrow> True | _ \<Rightarrow> False)"

definition deadlocked :: "'u world \<Rightarrow> crawl \<Rightarrow> state \<Rightarrow> bool" where
  "deadlocked W C s = (\<not> returned s \<and> \<not> panicked s \<and> (\<forall>a. step_fn W C a s = None))"

section \<open>The extractor's contract, in the specification's words\<close>

subsection \<open>The visible text of a page\<close>

text \<open>
  A non-rendering element is a \<^verbatim>\<open>script\<close> or \<^verbatim>\<open>style\<close> element. \<open>nodes_below\<close> lists
  the nodes of a tree in document order, each with its proper ancestors (nearest first).
  The visible text is the concatenation, in that order, of the text nodes none of whose
  ancestors is a non-rendering element.
\<close>

definition non_rendering :: "node \<Rightarrow> bool" where
  "non_rendering n = (Type n = ElementNode \<and> (Data n = ''script'' \<or> Data n = ''style''))"

fun nodes_below :: "node list \<Rightarrow> node \<Rightarrow> (node list \<times> node) list" where
  "nodes_below anc (Node t d attrs cs) =
     (anc, Node t d attrs cs) # concat (map (nodes_below (Node t d attrs cs # anc)) cs)"

definition shown :: "node list \<times> node \<Rightarrow> bool" where
  "shown p = (Type (snd p) = TextNode \<and> \<not> list_ex non_rendering (fst p))"

definition text_under :: "node list \<Rightarrow> node \<Rightarrow> string" where
  "text_under anc n = concat (map (\<lambda>p. Data (snd p)) (filter shown (nodes_below anc n)))"

definition visible_text :: "node \<Rightarrow> string" where
  "visible_text n = text_under [] n"

subsection \<open>The links of a page\<close>

text \<open>
  A node refers to something through an attribute when it is an \<^verbatim>\<open>a\<close> or \<^verbatim>\<open>link\<close> element
  and the attribute is \<^verbatim>\<open>href\<close>, or an \<^verbatim>\<open>img\<close> or \<^verbatim>\<open>script\<close> element and the attribute is
  \<^verbatim>\<open>src\<close>. A URL is discovered on a page when some node of the page refers to something
  that resolves to it; its host plays no part.
\<close>

definition refers :: "node \<Rightarrow> attribute \<Rightarrow> bool" where
  "refers m a =
     (Type m = ElementNode \<and> a \<in> set (Attr m)
      \<and> (((Data m = ''a'' \<or> Data m = ''link'') \<and> Key a = ''href'')
           \<or> ((Data m = ''img'' \<or> Data m = ''script'') \<and> Key a = ''src'')))"

definition found_below :: "'u world \<Rightarrow> node list \<Rightarrow> node \<Rightarrow> string \<Rightarrow> string set" where
  "found_below W anc n baseURL =
     {u. u \<noteq> [] \<and>
         (\<exists>p \<in> set (nodes_below anc n). \<exists>a. refers (snd p) a \<and> resolveURL W baseURL (Val a) = u)}"

definition discovered :: "'u world \<Rightarrow> node \<Rightarrow> string \<Rightarrow> string \<Rightarrow> bool" where
  "discovered W n baseURL u = (u \<in> found_below W [] n baseURL)"

section \<open>Invariants of the crawl\<close>

text \<open>
  Every started \<^verbatim>\<open>fetchAndProcess\<close> runs on a URL that is in the visited map, no two run on
  the same URL, and a task that has just been claimed is not yet running.
\<close>

definition claimed_once :: "state \<Rightarrow> bool" where
  "claimed_once s =
     ((\<forall>u \<in> set (invoked s). visitedURLs s u)
      \<and> distinct (invoked s)
      \<and> (case main s of
            MDepth t \<Rightarrow> visitedURLs s (url t) \<and> url t \<notin> set (invoked s)
          | _ \<Rightarrow> True))"

text \<open>The host of a URL string as the source reads it: \<^verbatim>\<open>url.Parse(link)\<close>, then \<^verbatim>\<open>.Host\<close>.\<close>

definition link_host :: "'u world \<Rightarrow> string \<Rightarrow> string option" where
  "link_host W u = map_option (url_Host W) (url_Parse W u)"

definition same_host :: "'u world \<Rightarrow> crawl \<Rightarrow> string \<Rightarrow> bool" where
  "same_host W C u = (link_host W u = Some (initialHost W C))"

text \<open>The task the main loop holds, and the link a worker is about to send.\<close>

fun current_task :: "main_pc \<Rightarrow> task option" where
  "current_task (MLock t) = Some t"
| "current_task (MCheck t) = Some t"
| "current_task (MDepth t) = Some t"
| "current_task (MDone t) = Some t"
| "current_task MRecv = None"
| "current_task (MReturned r) = None"

fun pending_link :: "worker_pc \<Rightarrow> string option" where
  "pending_link (WHold link rest) = Some link"
| "pending_link (WSend link rest) = Some link"
| "pending_link p = None"

text \<open>Every URL that is queued, held by the loop, about to be sent or being processed has the seed's host.\<close>

definition in_domain_only :: "'u world \<Rightarrow> crawl \<Rightarrow> state \<Rightarrow> bool" where
  "in_domain_only W C s =
     ((\<forall>t \<in> set (queue s). same_host W C (url t))
      \<and> (\<forall>w \<in> set (workers s).
            same_host W C (currentURL w)
            \<and> (case pending_link (pc w) of Some link \<Rightarrow> same_host W C link | None \<Rightarrow> True))
      \<and> (case current_task (main s) of Some t \<Rightarrow> same_host W C (url t) | None \<Rightarrow> True)
      \<and> (seeder s = SSend \<longrightarrow> same_host W C (URL (doc C))))"

text \<open>
  The tasks the wait group accounts for: one per queued task, one for the seed until it
  is sent, one for the task the loop holds, one per running worker, and one more for a
  worker between its \<^verbatim>\<open>wg.Add(1)\<close> and its send.
\<close>

fun worker_count :: "worker_pc \<Rightarrow> nat" where
  "worker_count (WSend link rest) = 2"
| "worker_count WDone = 0"
| "worker_count p = 1"

definition outstanding :: "state \<Rightarrow> nat" where
  "outstanding s =
     length (queue s)
     + (if seeder s = SSend then 1 else 0)
     + (case current_task (main s) of Some t \<Rightarrow> 1 | None \<Rightarrow> 0)
     + sum_list (map (\<lambda>w. worker_count (pc w)) (workers s))"

definition paired :: "state \<Rightarrow> bool" where
  "paired s =
     (\<not> panicked s
      \<and> wg s = int (outstanding s)
      \<and> (seeder s = SClose \<or> seeder s = SExit \<longrightarrow> wg s = 0)
      \<and> (closed s \<longrightarrow> seeder s = SExit))"

text \<open>Every started \<^verbatim>\<open>fetchAndProcess\<close> runs at a depth within the bound.\<close>

definition within_depth :: "crawl \<Rightarrow> state \<Rightarrow> bool" where
  "within_depth C s = (\<forall>d \<in> set (map currentDepth (workers s)). d \<le> maxDepth C)"


text \<open>
  The page at \<open>pageURL\<close> is fetched with status 200 and its URL parses, but the
  directory cannot be created or the file cannot be written.
\<close>

definition storage_fails :: "'u world \<Rightarrow> crawl \<Rightarrow> string \<Rightarrow> bool" where
  "storage_fails W C pageURL =
     (case http_Get W pageURL of
        None \<Rightarrow> False
      | Some resp \<Rightarrow>
     (case Body resp of
        None \<Rightarrow> False
      | Some body \<Rightarrow>
     (case url_Parse W pageURL of
        None \<Rightarrow> False
      | Some parsedURL \<Rightarrow>
          (let filePath = filepath_Join W
                 [DownloadPath C, Name (doc C), Version (doc C),
                  relativePath_of W parsedURL (initialHost W C)]
           in StatusCode resp = 200
              \<and> (\<not> os_MkdirAll W (filepath_Dir W filePath) \<or> \<not> ioutil_WriteFile W filePath body)))))"

section \<open>The mutex and the end of the crawl\<close>

text \<open>
  Who holds the mutex: the loop at its visited test, a worker from its lock to its
  unlock. The mutex is held exactly when one of them is in such a place.
\<close>

fun holds_mu :: "worker_pc \<Rightarrow> nat" where
  "holds_mu (WHold link rest) = 1"
| "holds_mu (WSend link rest) = 1"
| "holds_mu (WUnlock rest) = 1"
| "holds_mu p = 0"

definition holders :: "state \<Rightarrow> nat" where
  "holders s =
     (case main s of MCheck t \<Rightarrow> 1 | _ \<Rightarrow> 0)
     + sum_list (map (\<lambda>w. holds_mu (pc w)) (workers s))"

definition mutex_ok :: "state \<Rightarrow> bool" where
  "mutex_ok s = (holders s = (if mu s then 1 else 0) \<and> (seeder s = SExit \<longrightarrow> closed s \<or> returned s))"

text \<open>A worker stands at its send and the queue is full.\<close>

definition send_blocked :: "state \<Rightarrow> bool" where
  "send_blocked s =
     (queue_cap \<le> length (queue s)
      \<and> list_ex (\<lambda>w. case pc w of WSend link rest \<Rightarrow> True | _ \<Rightarrow> False) (workers s))"

section \<open>A bound on the number of steps\<close>

text \<open>
  The links a fetch of \<open>u\<close> yields, and the levels below depth \<open>d\<close> that are still
  fetched. \<open>task_cost\<close> bounds the steps a queued task can cause, itself and through
  the tasks its page enqueues: the recursion is on the levels left, so it needs the depth
  bound and that a page has finitely many links, not that the site is finite.
\<close>

definition links_of :: "'u world \<Rightarrow> crawl \<Rightarrow> string \<Rightarrow> string list" where
  "links_of W C u =
     (case fetchAndProcess_io W C u (initialHost W C) of
        Inl e \<Rightarrow> []
      | Inr (filePath, plainText, links) \<Rightarrow> links)"

definition fuel :: "crawl \<Rightarrow> int \<Rightarrow> nat" where
  "fuel C d = nat (maxDepth C - d + 1)"

primrec task_cost :: "'u world \<Rightarrow> crawl \<Rightarrow> nat \<Rightarrow> string \<Rightarrow> nat" where
  "task_cost W C 0 u = 5"
| "task_cost W C (Suc k) u =
     7 + sum_list (map (\<lambda>l. 4 + task_cost W C k l) (links_of W C u))"

definition links_cost :: "'u world \<Rightarrow> crawl \<Rightarrow> nat \<Rightarrow> string list \<Rightarrow> nat" where
  "links_cost W C k links = 2 + sum_list (map (\<lambda>l. 4 + task_cost W C k l) links)"

definition queued_cost :: "'u world \<Rightarrow> crawl \<Rightarrow> task \<Rightarrow> nat" where
  "queued_cost W C t = task_cost W C (fuel C (depth t)) (url t)"

fun pc_cost :: "'u world \<Rightarrow> crawl \<Rightarrow> nat \<Rightarrow> string \<Rightarrow> worker_pc \<Rightarrow> nat" where
  "pc_cost W C k u WFetch = 1 + links_cost W C k (links_of W C u)"
| "pc_cost W C k u (WLinks links) = links_cost W C k links"
| "pc_cost W C k u (WHold link rest) = 3 + task_cost W C k link + links_cost W C k rest"
| "pc_cost W C k u (WSend link rest) = 2 + task_cost W C k link + links_cost W C k rest"
| "pc_cost W C k u (WUnlock rest) = 1 + links_cost W C k rest"
| "pc_cost W C k u WExit = 1"
| "pc_cost W C k u WDone = 0"

definition worker_cost :: "'u world \<Rightarrow> crawl \<Rightarrow> worker \<Rightarrow> nat" where
  "worker_cost W C w = pc_cost W C (fuel C (currentDepth w + 1)) (currentURL w) (pc w)"

fun main_cost :: "'u world \<Rightarrow> crawl \<Rightarrow> main_pc \<Rightarrow> nat" where
  "main_cost W C MRecv = 1"
| "main_cost W C (MLock t) = queued_cost W C t"
| "main_cost W C (MCheck t) = queued_cost W C t - 1"
| "main_cost W C (MDepth t) = queued_cost W C t - 2"
| "main_cost W C (MDone t) = 2"
| "main_cost W C (MReturned r) = 0"

fun seeder_cost :: "'u world \<Rightarrow> crawl \<Rightarrow> seeder_pc \<Rightarrow> nat" where
  "seeder_cost W C SSend = 3 + queued_cost W C (Task (URL (doc C)) 0)"
| "seeder_cost W C SWait = 2"
| "seeder_cost W C SClose = 1"
| "seeder_cost W C SExit = 0"

definition potential :: "'u world \<Rightarrow> crawl \<Rightarrow> state \<Rightarrow> nat" where
  "potential W C s =
     (if panicked s then 0 else 1)
     + seeder_cost W C (seeder s)
     + sum_list (map (queued_cost W C) (queue s))
     + main_cost W C (main s)
     + sum_list (map (worker_cost W C) (workers s))"

section \<open>A page with more links than the queue holds\<close>

text \<open>
  A state in which the seed's worker is the only worker and walks its links, the
  seeder waits, and nothing is closed or locked.
\<close>

definition sending :: "task list \<Rightarrow> (string \<Rightarrow> bool) \<Rightarrow> int \<Rightarrow> main_pc \<Rightarrow> string \<Rightarrow> int \<Rightarrow>
    worker_pc \<Rightarrow> (string \<times> string) list \<Rightarrow> bool \<Rightarrow> state" where
  "sending q v n m u d p ix locked =
     \<lparr>queue = q, closed = False, visitedURLs = v, wg = n, mu = locked, panicked = False,
      seeder = SWait, main = m,
      workers = [\<lparr>currentURL = u, currentDepth = d, pc = p\<rparr>], indexed = ix\<rparr>"

definition send_schedule :: "nat \<Rightarrow> actor list" where
  "send_schedule k = concat (replicate k [Worker 0, Worker 0, Worker 0, Worker 0])"

text \<open>
  The schedule that blocks the crawl on a seed page whose first \<open>queue_cap + 2\<close> links
  are in-domain and not yet visited: the seed is dispatched and fetched; its worker sends
  the first link; the loop receives it and is about to lock; the worker sends
  \<open>queue_cap\<close> more links, filling the queue, takes the mutex for the next one,
  increments the counter and blocks in the send. In \<open>deadlock_state\<close> the worker waits
  for room in the queue holding the mutex, the loop (the only receiver) waits for the
  mutex, and the seeder waits for the counter to reach zero.
\<close>

definition deadlock_schedule :: "actor list" where
  "deadlock_schedule =
     [Seeder, Main, Main, Main, Main, Worker 0] @ send_schedule 1 @ [Main]
     @ send_schedule queue_cap @ [Worker 0, Worker 0]"

definition deadlock_state ::
  "crawl \<Rightarrow> string \<Rightarrow> string \<Rightarrow> string \<Rightarrow> string list \<Rightarrow> string \<Rightarrow> string list \<Rightarrow> state" where
  "deadlock_state C filePath plainText l0 mid l1 rest =
     sending (map (\<lambda>l. Task l 1) mid) ((visitedURLs0 C)(URL (doc C) := True))
       (int queue_cap + 3) (MLock (Task l0 1)) (URL (doc C)) 0 (WSend l1 rest)
       [(filePath, plainText)] True"

section \<open>A small site, for closed instances\<close>

text \<open>
  A world to run the crawl in: URLs are \<^verbatim>\<open>http://host/path#fragment\<close> strings, a parsed
  URL is the string itself, links are absolute, storage always succeeds. The seed page
  \<^verbatim>\<open>http://example.test/\<close> links to \<^verbatim>\<open>/a\<close>, to another host and to \<^verbatim>\<open>/a#x\<close>; both
  \<^verbatim>\<open>/a\<close> and \<^verbatim>\<open>/a#x\<close> are served the same page, which links back to the seed.
\<close>

definition ex_Parse :: "string \<Rightarrow> string option" where
  "ex_Parse s = (if take 7 s = ''http://'' then Some s else None)"

definition ex_Host :: "string \<Rightarrow> string" where
  "ex_Host u = takeWhile (\<lambda>c. c \<noteq> CHR ''/'') (drop 7 u)"

definition ex_Path :: "string \<Rightarrow> string" where
  "ex_Path u =
     takeWhile (\<lambda>c. c \<noteq> CHR ''#'') (dropWhile (\<lambda>c. c \<noteq> CHR ''/'') (drop 7 u))"

definition anchor :: "string \<Rightarrow> node" where
  "anchor href = Node ElementNode ''a'' [\<lparr>Namespace = [], Key = ''href'', Val = href\<rparr>] []"

definition ex_root :: node where
  "ex_root =
     Node DocumentNode [] []
       [Node ElementNode ''html'' []
          [Node ElementNode ''script'' [] [Node TextNode ''var x;'' [] []],
           Node TextNode ''Docs '' [] [],
           anchor ''http://example.test/a'',
           anchor ''http://other.test/'',
           anchor ''http://example.test/a#x'']]"

definition ex_leaf :: node where
  "ex_leaf =
     Node DocumentNode [] []
       [Node TextNode ''Page a'' [] [], anchor ''http://example.test/'']"

definition ex_world :: "string world" where
  "ex_world =
     \<lparr>url_Parse = ex_Parse, url_Host = ex_Host, url_Path = ex_Path,
      url_ResolveReference = (\<lambda>base rel. rel), url_String = (\<lambda>u. u),
      http_Get = (\<lambda>u.
        if u = ''http://example.test/'' then Some \<lparr>StatusCode = 200, Body = Some ''root''\<rparr>
        else if u = ''http://example.test/a'' \<or> u = ''http://example.test/a#x''
        then Some \<lparr>StatusCode = 200, Body = Some ''leaf''\<rparr>
        else None),
      filepath_Ext = (\<lambda>p. []),
      filepath_Join = (\<lambda>parts. concat (map (\<lambda>p. CHR ''/'' # p) parts)),
      filepath_Dir = (\<lambda>p. p),
      os_MkdirAll = (\<lambda>dir. True),
      ioutil_WriteFile = (\<lambda>filePath body. True),
      html_Parse = (\<lambda>body.
        if body = ''root'' then Some ex_root
        else if body = ''leaf'' then Some ex_leaf else None)\<rparr>"

definition ex_crawl :: crawl where
  "ex_crawl =
     \<lparr>DownloadPath = ''dl'',
      doc = \<lparr>Name = ''ex'', Version = ''1'', URL = ''http://example.test/''\<rparr>,
      maxDepth = 1, visitedURLs0 = (\<lambda>u. False)\<rparr>"

text \<open>
  One schedule that runs this crawl to its end: the seed is sent, claimed and fetched;
  its worker enqueues \<^verbatim>\<open>/a\<close> and \<^verbatim>\<open>/a#x\<close> and skips the other host; the loop claims and
  dispatches both; each of their workers finds the seed visited; the seeder closes the queue
  and the loop returns.
\<close>

definition ex_schedule :: "actor list" where
  "ex_schedule =
     [Seeder, Main, Main, Main, Main,
      Worker 0, Worker 0, Worker 0, Worker 0, Worker 0, Worker 0,
      Worker 0, Worker 0, Worker 0, Worker 0, Worker 0, Worker 0,
      Main, Main, Main, Main, Main, Main, Main, Main,
      Worker 1, Worker 1, Worker 1, Worker 1, Worker 1,
      Worker 2, Worker 2, Worker 2, Worker 2, Worker 2,
      Seeder, Seeder, Main]"

definition ex_final :: state where
  "ex_final =
     \<lparr>queue = [], closed = True,
      visitedURLs = (\<lambda>u. False)
        (''http://example.test/'' := True, ''http://example.test/a'' := True,
         ''http://example.test/a#x'' := True),
      wg = 0, mu = False, panicked = False, seeder = SExit, main = MReturned None,
      workers =
        [\<lparr>currentURL = ''http://example.test/'', currentDepth = 0, pc = WDone\<rparr>,
         \<lparr>currentURL = ''http://example.test/a'', currentDepth = 1, pc = WDone\<rparr>,
         \<lparr>currentURL = ''http://example.test/a#x'', currentDepth = 1, pc = WDone\<rparr>],
      indexed =
        [(''/dl/ex/1/index.html'', ''Docs ''), (''/dl/ex/1/a.html'', ''Page a''),
         (''/dl/ex/1/a.html'', ''Page a'')]\<rparr>"

text \<open>The same site crawled with depth bound 0, up to the moment the loop holds the task
  for \<^verbatim>\<open>/a\<close> at depth 1 under the mutex (\<open>ex_before\<close>), and one step of the loop later
  (\<open>ex_after\<close>).\<close>

definition ex_crawl0 :: crawl where
  "ex_crawl0 = ex_crawl\<lparr>maxDepth := 0\<rparr>"

definition ex_schedule0 :: "actor list" where
  "ex_schedule0 =
     [Seeder, Main, Main, Main, Main,
      Worker 0, Worker 0, Worker 0, Worker 0, Worker 0, Main, Main]"

definition ex_before :: state where
  "ex_before =
     \<lparr>queue = [], closed = False,
      visitedURLs = (\<lambda>u. False)(''http://example.test/'' := True),
      wg = 2, mu = True, panicked = False, seeder = SWait,
      main = MCheck (Task ''http://example.test/a'' 1),
      workers =
        [\<lparr>currentURL = ''http://example.test/'', currentDepth = 0,
          pc = WLinks [''http://other.test/'', ''http://example.test/a#x'']\<rparr>],
      indexed = [(''/dl/ex/1/index.html'', ''Docs '')]\<rparr>"

definition ex_after :: state where
  "ex_after =
     ex_before\<lparr>visitedURLs :=
                   (\<lambda>u. False)(''http://example.test/'' := True, ''http://example.test/a'' := True),
                 mu := False, main := MDepth (Task ''http://example.test/a'' 1)\<rparr>"

text \<open>The same site when no directory can be created.\<close>

definition ex_world_ro :: "string world" where
  "ex_world_ro = ex_world\<lparr>os_MkdirAll := (\<lambda>dir. False)\<rparr>"

definition ex_ro_start :: state where
  "ex_ro_start =
     \<lparr>queue = [], closed = False,
      visitedURLs = (\<lambda>u. False)(''http://example.test/'' := True),
      wg = 1, mu = False, panicked = False, seeder = SWait, main = MRecv,
      workers = [\<lparr>currentURL = ''http://example.test/'', currentDepth = 0, pc = WFetch\<rparr>],
      indexed = []\<rparr>"

definition ex_ro_final :: state where
  "ex_ro_final =
     \<lparr>queue = [], closed = True,
      visitedURLs = (\<lambda>u. False)(''http://example.test/'' := True),
      wg = 0, mu = False, panicked = False, seeder = SExit, main = MReturned None,
      workers = [\<lparr>currentURL = ''http://example.test/'', currentDepth = 0, pc = WDone\<rparr>],
      indexed = []\<rparr>"

text \<open>
  The crawl of the first site with depth bound 1, at the moment the loop holds the task for
  \<^verbatim>\<open>/a#x\<close> under the mutex: \<^verbatim>\<open>/a\<close> has been claimed and fetched (\<open>ex_second\<close>), and
  after the loop has dispatched it and its worker has fetched (\<open>ex_third\<close>).
\<close>

definition ex_schedule1 :: "actor list" where
  "ex_schedule1 =
     [Seeder, Main, Main, Main, Main,
      Worker 0, Worker 0, Worker 0, Worker 0, Worker 0, Worker 0,
      Worker 0, Worker 0, Worker 0, Worker 0, Worker 0, Worker 0,
      Main, Main, Main, Main, Worker 1, Main, Main]"

definition ex_second :: state where
  "ex_second =
     \<lparr>queue = [], closed = False,
      visitedURLs = (\<lambda>u. False)
        (''http://example.test/'' := True, ''http://example.test/a'' := True),
      wg = 2, mu = True, panicked = False, seeder = SWait,
      main = MCheck (Task ''http://example.test/a#x'' 1),
      workers =
        [\<lparr>currentURL = ''http://example.test/'', currentDepth = 0, pc = WDone\<rparr>,
         \<lparr>currentURL = ''http://example.test/a'', currentDepth = 1,
          pc = WLinks [''http://example.test/'']\<rparr>],
      indexed =
        [(''/dl/ex/1/index.html'', ''Docs ''), (''/dl/ex/1/a.html'', ''Page a'')]\<rparr>"

definition ex_third :: state where
  "ex_third =
     \<lparr>queue = [], closed = False,
      visitedURLs = (\<lambda>u. False)
        (''http://example.test/'' := True, ''http://example.test/a'' := True,
         ''http://example.test/a#x'' := True),
      wg = 2, mu = False, panicked = False, seeder = SWait, main = MRecv,
      workers =
        [\<lparr>currentURL = ''http://example.test/'', currentDepth = 0, pc = WDone\<rparr>,
         \<lparr>currentURL = ''http://example.test/a'', currentDepth = 1,
          pc = WLinks [''http://example.test/'']\<rparr>,
         \<lparr>currentURL = ''http://example.test/a#x'', currentDepth = 1,
          pc = WLinks [''http://example.test/'']\<rparr>],
      indexed =
        [(''/dl/ex/1/index.html'', ''Docs ''), (''/dl/ex/1/a.html'', ''Page a''),
         (''/dl/ex/1/a.html'', ''Page a'')]\<rparr>"

text \<open>An instance: a seed page of 102 links on the example host.\<close>

definition wide_link :: "nat \<Rightarrow> string" where
  "wide_link k = ''http://example.test/'' @ replicate (Suc k) (CHR ''p'')"

definition wide_mid :: "string list" where
  "wide_mid = map wide_link [1..<101]"

definition wide_links :: "string list" where
  "wide_links = wide_link 0 # wide_mid @ [wide_link 101]"

definition ex_wide_root :: node where
  "ex_wide_root = Node DocumentNode [] [] (map anchor wide_links)"

definition ex_world_wide :: "string world" where
  "ex_world_wide =
     ex_world\<lparr>html_Parse := (\<lambda>body. if body = ''root'' then Some ex_wide_root else None)\<rparr>"

section \<open>Text extraction\<close>

lemma concat_map_filter_concat:
  "concat (map f (filter P (concat xss))) = concat (map (\<lambda>xs. concat (map f (filter P xs))) xss)"
  by (induction xss) auto

lemma text_under_Node:
  "text_under anc (Node t d attrs cs) =
     (if t = TextNode \<and> \<not> list_ex non_rendering anc then d else [])
     @ concat (map (text_under (Node t d attrs cs # anc)) cs)"
  unfolding text_under_def [abs_def]
  by (simp add: shown_def concat_map_filter_concat comp_def)

lemma text_under_hidden: "list_ex non_rendering anc \<Longrightarrow> text_under anc n = []"
proof (induction n arbitrary: anc)
  case (Node t d attrs cs)
  have "\<And>c. c \<in> set cs \<Longrightarrow> text_under (Node t d attrs cs # anc) c = []"
    using Node by simp
  then show ?case using Node.prems
    by (simp add: text_under_Node)
qed

lemma fold_extractText_f:
  assumes "\<And>c b. c \<in> set cs \<Longrightarrow> extractText_f c b = b @ g c"
  shows "fold extractText_f cs b = b @ concat (map g cs)"
  using assms by (induction cs arbitrary: b) simp_all

lemma extractText_f_text_under:
  "\<not> list_ex non_rendering anc \<Longrightarrow> extractText_f n b = b @ text_under anc n"
proof (induction n arbitrary: anc b)
  case (Node t d attrs cs)
  let ?n = "Node t d attrs cs"
  show ?case
  proof (cases "non_rendering ?n")
    case True
    then have hidden: "\<And>c. text_under (?n # anc) c = []"
      by (simp add: text_under_hidden)
    from True have "t = ElementNode \<and> (d = ''script'' \<or> d = ''style'')"
      by (simp add: non_rendering_def)
    with hidden Node.prems show ?thesis
      by (simp add: text_under_Node)
  next
    case False
    with Node.prems have "\<not> list_ex non_rendering (?n # anc)" by simp
    then have "\<And>c b. c \<in> set cs \<Longrightarrow> extractText_f c b = b @ text_under (?n # anc) c"
      using Node.IH by blast
    then have "\<And>b. fold extractText_f cs b = b @ concat (map (text_under (?n # anc)) cs)"
      by (rule fold_extractText_f)
    moreover from False have "\<not> (t = ElementNode \<and> (d = ''script'' \<or> d = ''style''))"
      by (simp add: non_rendering_def)
    ultimately show ?thesis using Node.prems
      by (auto simp add: text_under_Node)
  qed
qed

text \<open>
  Claim C8. For every parsed document, \<^verbatim>\<open>extractText\<close> returns the concatenation, in
  document order, of the text nodes that have no \<^verbatim>\<open>script\<close> or \<^verbatim>\<open>style\<close> element
  among their ancestors, at whatever depth: the text below such an element is left out
  entirely, and nothing else is.
\<close>

theorem C8_extractText_visible_text: "extractText n = visible_text n"
  using extractText_f_text_under [of "[]" n "[]"]
  by (simp add: extractText_def visible_text_def)

section \<open>Steps of the crawl: what each leaves alone\<close>

lemma worker_step_frame:
  assumes "worker_step W C i s = Some s'"
  shows "i < length (workers s) \<and> invoked s' = invoked s
         \<and> map currentDepth (workers s') = map currentDepth (workers s)
         \<and> visitedURLs s' = visitedURLs s \<and> main s' = main s \<and> seeder s' = seeder s
         \<and> closed s' = closed s"
  using assms
  by (auto simp: worker_step_def set_pc_def wg_Done_def invoked_def map_update list_update_same_conv
           split: if_splits worker_pc.splits sum.splits list.splits option.splits prod.splits)

lemma seeder_step_frame:
  assumes "seeder_step C s = Some s'"
  shows "workers s' = workers s \<and> visitedURLs s' = visitedURLs s \<and> main s' = main s
         \<and> wg s' = wg s \<and> mu s' = mu s \<and> panicked s' = panicked s"
  using assms
  by (auto simp: seeder_step_def split: if_splits seeder_pc.splits)

lemma run_reachable:
  "run W C sched s = Some s' \<Longrightarrow> reachable W C s \<Longrightarrow> reachable W C s'"
proof (induction sched arbitrary: s)
  case Nil
  then show ?case by simp
next
  case (Cons a sched)
  then show ?case
    by (auto split: option.splits intro: reachable.reach_step)
qed

section \<open>At most one worker per URL\<close>

lemma claimed_once_init: "claimed_once (init W C)"
  by (simp add: claimed_once_def init_def invoked_def split: option.splits)

lemma claimed_once_step:
  assumes "step_fn W C a s = Some s'" and "claimed_once s"
  shows "claimed_once s'"
proof (cases a)
  case Seeder
  with assms(1) have "seeder_step C s = Some s'"
    by (simp add: step_fn_def split: if_splits)
  from seeder_step_frame [OF this] assms(2) show ?thesis
    by (simp add: claimed_once_def invoked_def split: main_pc.splits)
next
  case Main
  with assms(1) have "main_step C s = Some s'"
    by (simp add: step_fn_def split: if_splits)
  with assms(2) show ?thesis
    by (auto simp: claimed_once_def main_step_def wg_Done_def invoked_def
             split: main_pc.splits list.splits if_splits)
next
  case (Worker i)
  with assms(1) have "worker_step W C i s = Some s'"
    by (simp add: step_fn_def split: if_splits)
  from worker_step_frame [OF this] assms(2) show ?thesis
    by (simp add: claimed_once_def split: main_pc.splits)
qed

lemma reachable_claimed_once: "reachable W C s \<Longrightarrow> claimed_once s"
  by (induction rule: reachable.induct) (auto intro: claimed_once_init claimed_once_step)

section \<open>The wait group counts the outstanding tasks\<close>

lemma map_currentURL_set_pc [simp]:
  "i < length ws \<Longrightarrow> map currentURL (ws[i := (ws ! i)\<lparr>pc := p\<rparr>]) = map currentURL ws"
  by (simp add: map_update list_update_same_conv)

lemma map_currentDepth_set_pc [simp]:
  "i < length ws \<Longrightarrow> map currentDepth (ws[i := (ws ! i)\<lparr>pc := p\<rparr>]) = map currentDepth ws"
  by (simp add: map_update list_update_same_conv)

lemma sum_list_map_update:
  fixes f :: "'a \<Rightarrow> nat"
  shows "i < length ws \<Longrightarrow>
    sum_list (map f (ws[i := x])) + f (ws ! i) = sum_list (map f ws) + f x"
proof (induction ws arbitrary: i)
  case Nil
  then show ?case by simp
next
  case (Cons w ws)
  then show ?case by (cases i) auto
qed

lemma worker_count_set_pc:
  assumes "i < length (workers s)"
  shows "sum_list (map (\<lambda>w. worker_count (pc w)) (workers (set_pc i p s)))
           + worker_count (pc (workers s ! i))
         = sum_list (map (\<lambda>w. worker_count (pc w)) (workers s)) + worker_count p"
  using sum_list_map_update [OF assms, of "\<lambda>w. worker_count (pc w)" "(workers s ! i)\<lparr>pc := p\<rparr>"]
  by (simp add: set_pc_def)

lemma set_pc_fields [simp]:
  "queue (set_pc i p s) = queue s" "closed (set_pc i p s) = closed s"
  "visitedURLs (set_pc i p s) = visitedURLs s" "wg (set_pc i p s) = wg s"
  "mu (set_pc i p s) = mu s" "panicked (set_pc i p s) = panicked s"
  "seeder (set_pc i p s) = seeder s" "main (set_pc i p s) = main s"
  "indexed (set_pc i p s) = indexed s"
  by (simp_all add: set_pc_def)

lemma outstanding_set_pc:
  assumes "i < length (workers s)"
  shows "outstanding (set_pc i p s) + worker_count (pc (workers s ! i))
         = outstanding s + worker_count p"
  using worker_count_set_pc [OF assms, of p] by (simp add: outstanding_def)

lemma outstanding_worker:
  assumes "i < length (workers s)"
  shows "worker_count (pc (workers s ! i)) \<le> outstanding s"
proof -
  have "workers s ! i \<in> set (workers s)" using assms by simp
  then have "worker_count (pc (workers s ! i)) \<in> set (map (\<lambda>w. worker_count (pc w)) (workers s))"
    by simp
  then have "worker_count (pc (workers s ! i)) \<le> sum_list (map (\<lambda>w. worker_count (pc w)) (workers s))"
    by (simp add: member_le_sum_list)
  then show ?thesis by (simp add: outstanding_def)
qed

lemma paired_init: "paired (init W C)"
  by (simp add: paired_def init_def outstanding_def split: option.splits)

lemma paired_seeder:
  assumes "seeder_step C s = Some s'" and "paired s"
  shows "paired s'"
  using assms
  by (auto simp: seeder_step_def paired_def outstanding_def split: seeder_pc.splits if_splits)

lemma paired_main:
  assumes "main_step C s = Some s'" and "paired s"
  shows "paired s'"
  using assms
  by (auto simp: main_step_def paired_def outstanding_def wg_Done_def
           split: main_pc.splits list.splits if_splits)


lemma outstanding_set_pc_eq:
  assumes "i < length (workers s)"
  shows "outstanding (set_pc i p s)
         = outstanding s - worker_count (pc (workers s ! i)) + worker_count p"
  using outstanding_set_pc [OF assms, of p] outstanding_worker [OF assms] by simp

lemma outstanding_update [simp]:
  "outstanding (s\<lparr>mu := b\<rparr>) = outstanding s"
  "outstanding (s\<lparr>wg := n\<rparr>) = outstanding s"
  "outstanding (s\<lparr>panicked := b\<rparr>) = outstanding s"
  "outstanding (s\<lparr>indexed := x\<rparr>) = outstanding s"
  "outstanding (s\<lparr>queue := queue s @ [t]\<rparr>) = Suc (outstanding s)"
  by (simp_all add: outstanding_def)

lemma paired_worker:
  assumes "worker_step W C i s = Some s'" and "paired s"
  shows "paired s'"
proof -
  from assms(1) have i: "i < length (workers s)"
    by (simp add: worker_step_def split: if_splits)
  have le: "worker_count (pc (workers s ! i)) \<le> outstanding s"
    by (rule outstanding_worker [OF i])
  have upd: "\<And>p s0. workers s0 = workers s \<Longrightarrow> outstanding (set_pc i p s0)
         = outstanding s0 - worker_count (pc (workers s ! i)) + worker_count p"
    using i by (simp add: outstanding_set_pc_eq)
  show ?thesis
  proof (cases "pc (workers s ! i)")
    case WFetch
    with assms i le show ?thesis
      by (auto simp: worker_step_def paired_def upd split: sum.splits prod.splits)
  next
    case (WLinks links)
    with assms i le show ?thesis
      by (auto simp: worker_step_def paired_def upd split: list.splits option.splits if_splits)
  next
    case (WHold link rest)
    with assms i le show ?thesis
      by (auto simp: worker_step_def paired_def upd split: if_splits)
  next
    case (WSend link rest)
    with assms i le show ?thesis
      by (auto simp: worker_step_def paired_def upd split: if_splits)
  next
    case (WUnlock rest)
    with assms i le show ?thesis
      by (auto simp: worker_step_def paired_def upd split: if_splits)
  next
    case WExit
    with assms i le show ?thesis
      by (auto simp: worker_step_def paired_def upd wg_Done_def split: if_splits)
  next
    case WDone
    with assms i show ?thesis
      by (simp add: worker_step_def)
  qed
qed

lemma paired_step:
  assumes "step_fn W C a s = Some s'" and "paired s"
  shows "paired s'"
  using assms
  by (cases a) (auto simp: step_fn_def split: if_splits
                     intro: paired_seeder paired_main paired_worker)

lemma reachable_paired: "reachable W C s \<Longrightarrow> paired s"
  by (induction rule: reachable.induct) (auto intro: paired_init paired_step)

section \<open>Only URLs of the seed's host are queued\<close>

lemma same_host_seed:
  "url_Parse W (URL (doc C)) = Some u \<Longrightarrow> same_host W C (URL (doc C))"
  by (simp add: same_host_def link_host_def initialHost_def)

lemma in_domain_only_init: "in_domain_only W C (init W C)"
  by (auto simp: in_domain_only_def init_def same_host_seed split: option.splits)

lemma in_domain_only_seeder:
  assumes "seeder_step C s = Some s'" and "in_domain_only W C s"
  shows "in_domain_only W C s'"
  using assms
  by (auto simp: seeder_step_def in_domain_only_def split: seeder_pc.splits if_splits)

lemma in_domain_only_main:
  assumes "main_step C s = Some s'" and "in_domain_only W C s"
  shows "in_domain_only W C s'"
  using assms
  by (auto simp: main_step_def in_domain_only_def wg_Done_def
           split: main_pc.splits list.splits if_splits)

lemma in_set_pc:
  assumes "w \<in> set (workers (set_pc i p s))"
  shows "w \<in> set (workers s) \<or> (i < length (workers s) \<and> w = (workers s ! i)\<lparr>pc := p\<rparr>)"
proof (cases "i < length (workers s)")
  case True
  from assms have "w \<in> insert ((workers s ! i)\<lparr>pc := p\<rparr>) (set (workers s))"
    using set_update_subset_insert [of "workers s" i] by (auto simp: set_pc_def)
  with True show ?thesis by auto
next
  case False
  then have "(workers s)[i := (workers s ! i)\<lparr>pc := p\<rparr>] = workers s"
    by (simp add: list_update_beyond)
  with assms show ?thesis by (simp add: set_pc_def)
qed

lemma in_domain_only_set_pc:
  assumes "in_domain_only W C s"
    and "case pending_link p of Some link \<Rightarrow> same_host W C link | None \<Rightarrow> True"
  shows "in_domain_only W C (set_pc i p s)"
proof -
  have "same_host W C (currentURL w)
        \<and> (case pending_link (pc w) of Some link \<Rightarrow> same_host W C link | None \<Rightarrow> True)"
    if "w \<in> set (workers (set_pc i p s))" for w
  proof -
    from in_set_pc [OF that] show ?thesis
    proof
      assume "w \<in> set (workers s)"
      with assms(1) show ?thesis by (simp add: in_domain_only_def)
    next
      assume w: "i < length (workers s) \<and> w = (workers s ! i)\<lparr>pc := p\<rparr>"
      then have "workers s ! i \<in> set (workers s)" by simp
      with assms(1) have "same_host W C (currentURL (workers s ! i))"
        by (simp add: in_domain_only_def)
      with w assms(2) show ?thesis by simp
    qed
  qed
  with assms(1) show ?thesis
    by (simp add: in_domain_only_def)
qed

lemma in_domain_only_update [simp]:
  "in_domain_only W C (s\<lparr>mu := b\<rparr>) = in_domain_only W C s"
  "in_domain_only W C (s\<lparr>wg := n\<rparr>) = in_domain_only W C s"
  "in_domain_only W C (s\<lparr>panicked := b\<rparr>) = in_domain_only W C s"
  "in_domain_only W C (s\<lparr>indexed := x\<rparr>) = in_domain_only W C s"
  by (simp_all add: in_domain_only_def)

lemma in_domain_only_enqueue:
  "in_domain_only W C s \<Longrightarrow> same_host W C (url t) \<Longrightarrow>
   in_domain_only W C (s\<lparr>queue := queue s @ [t]\<rparr>)"
  by (simp add: in_domain_only_def)

lemma in_domain_only_worker:
  assumes "worker_step W C i s = Some s'" and "in_domain_only W C s"
  shows "in_domain_only W C s'"
proof -
  from assms(1) have i: "i < length (workers s)"
    by (simp add: worker_step_def split: if_splits)
  then have mem: "workers s ! i \<in> set (workers s)" by simp
  with assms(2) have
    pend: "case pending_link (pc (workers s ! i)) of Some link \<Rightarrow> same_host W C link | None \<Rightarrow> True"
    by (simp add: in_domain_only_def)
  note rules = in_domain_only_set_pc in_domain_only_enqueue
  show ?thesis
  proof (cases "pc (workers s ! i)")
    case WFetch
    with assms i show ?thesis
      by (auto simp: worker_step_def intro!: rules split: sum.splits prod.splits)
  next
    case (WLinks links)
    with assms i show ?thesis
      by (auto simp: worker_step_def same_host_def link_host_def intro!: rules
               split: list.splits option.splits if_splits)
  next
    case (WHold link rest)
    with assms i pend show ?thesis
      by (auto simp: worker_step_def intro!: rules split: if_splits)
  next
    case (WSend link rest)
    with assms i pend show ?thesis
      by (auto simp: worker_step_def intro!: rules split: if_splits)
  next
    case (WUnlock rest)
    with assms i show ?thesis
      by (auto simp: worker_step_def intro!: rules split: if_splits)
  next
    case WExit
    with assms i show ?thesis
      by (auto simp: worker_step_def wg_Done_def intro!: rules split: if_splits)
  next
    case WDone
    with assms i show ?thesis
      by (simp add: worker_step_def)
  qed
qed

lemma in_domain_only_step:
  assumes "step_fn W C a s = Some s'" and "in_domain_only W C s"
  shows "in_domain_only W C s'"
  using assms
  by (cases a) (auto simp: step_fn_def split: if_splits
                     intro: in_domain_only_seeder in_domain_only_main in_domain_only_worker)

lemma reachable_in_domain_only: "reachable W C s \<Longrightarrow> in_domain_only W C s"
  by (induction rule: reachable.induct) (auto intro: in_domain_only_init in_domain_only_step)

section \<open>Workers run within the depth bound\<close>

lemma within_depth_init: "within_depth C (init W C)"
  by (simp add: within_depth_def init_def split: option.splits)

lemma within_depth_step:
  assumes "step_fn W C a s = Some s'" and "within_depth C s"
  shows "within_depth C s'"
proof (cases a)
  case Seeder
  with assms(1) have "seeder_step C s = Some s'"
    by (simp add: step_fn_def split: if_splits)
  from seeder_step_frame [OF this] assms(2) show ?thesis
    by (simp add: within_depth_def)
next
  case Main
  with assms(1) have "main_step C s = Some s'"
    by (simp add: step_fn_def split: if_splits)
  with assms(2) show ?thesis
    by (auto simp: within_depth_def main_step_def wg_Done_def
             split: main_pc.splits list.splits if_splits)
next
  case (Worker i)
  with assms(1) have "worker_step W C i s = Some s'"
    by (simp add: step_fn_def split: if_splits)
  from worker_step_frame [OF this] assms(2) show ?thesis
    by (simp add: within_depth_def)
qed

lemma reachable_within_depth: "reachable W C s \<Longrightarrow> within_depth C s"
  by (induction rule: reachable.induct) (auto intro: within_depth_init within_depth_step)

section \<open>What \<^verbatim>\<open>DownloadDoc\<close> returns\<close>





section \<open>What \<^verbatim>\<open>extractLinks\<close> returns\<close>

lemma set_attr_loop:
  "set (attr_loop W wanted baseURL attrs links) =
     set links \<union> {u. u \<noteq> [] \<and> (\<exists>a \<in> set attrs. wanted a \<and> resolveURL W baseURL (Val a) = u)}"
  by (induction attrs arbitrary: links) (auto simp: Let_def)

lemma set_own_links:
  "set (own_links W t d attrs baseURL) =
     {u. u \<noteq> [] \<and> (\<exists>a. refers (Node t d attrs cs) a \<and> resolveURL W baseURL (Val a) = u)}"
  by (auto simp: own_links_def set_attr_loop refers_def)

lemma found_below_Node:
  "found_below W anc (Node t d attrs cs) baseURL =
     {u. u \<noteq> [] \<and> (\<exists>a. refers (Node t d attrs cs) a \<and> resolveURL W baseURL (Val a) = u)}
     \<union> (\<Union>c \<in> set cs. found_below W (Node t d attrs cs # anc) c baseURL)"
  by (auto simp: found_below_def)

lemma set_extractLinks_found:
  "set (extractLinks W n baseURL) = found_below W anc n baseURL"
proof (induction n arbitrary: anc)
  case (Node t d attrs cs)
  have "\<And>c. c \<in> set cs \<Longrightarrow>
      set (extractLinks W c baseURL) = found_below W (Node t d attrs cs # anc) c baseURL"
    using Node by simp
  then show ?case
    by (simp add: found_below_Node set_own_links [where cs = cs])
qed

lemma set_extractLinks: "set (extractLinks W n baseURL) = {u. discovered W n baseURL u}"
  using set_extractLinks_found [of W n baseURL "[]"]
  by (simp add: discovered_def)

lemma reachable_wg_pos:
  assumes "reachable W C s"
  shows "\<not> panicked s"
    and "current_task (main s) = Some t \<Longrightarrow> 0 < wg s"
    and "i < length (workers s) \<Longrightarrow> pc (workers s ! i) \<noteq> WDone \<Longrightarrow> 0 < wg s"
proof -
  from reachable_paired [OF assms] have p: "\<not> panicked s" and w: "wg s = int (outstanding s)"
    by (simp_all add: paired_def)
  show "\<not> panicked s" by (rule p)
  show "0 < wg s" if "current_task (main s) = Some t"
    using that w by (simp add: outstanding_def)
  show "0 < wg s" if "i < length (workers s)" and "pc (workers s ! i) \<noteq> WDone"
  proof -
    from that(2) have "0 < worker_count (pc (workers s ! i))"
      by (cases "pc (workers s ! i)") simp_all
    with outstanding_worker [OF that(1)] w show ?thesis by simp
  qed
qed

section \<open>The mutex has one holder\<close>

lemma holders_set_pc:
  assumes "i < length (workers s)"
  shows "holders (set_pc i p s) + holds_mu (pc (workers s ! i)) = holders s + holds_mu p"
  using sum_list_map_update [OF assms, of "\<lambda>w. holds_mu (pc w)" "(workers s ! i)\<lparr>pc := p\<rparr>"]
  by (simp add: holders_def set_pc_def)

lemma holders_worker:
  assumes "i < length (workers s)"
  shows "holds_mu (pc (workers s ! i)) \<le> holders s"
proof -
  have "workers s ! i \<in> set (workers s)" using assms by simp
  then have "holds_mu (pc (workers s ! i)) \<in> set (map (\<lambda>w. holds_mu (pc w)) (workers s))"
    by simp
  then have "holds_mu (pc (workers s ! i)) \<le> sum_list (map (\<lambda>w. holds_mu (pc w)) (workers s))"
    by (simp add: member_le_sum_list)
  then show ?thesis by (simp add: holders_def)
qed

lemma holders_update [simp]:
  "holders (s\<lparr>mu := b\<rparr>) = holders s"
  "holders (s\<lparr>wg := n\<rparr>) = holders s"
  "holders (s\<lparr>panicked := b\<rparr>) = holders s"
  "holders (s\<lparr>indexed := x\<rparr>) = holders s"
  "holders (s\<lparr>queue := q\<rparr>) = holders s"
  by (simp_all add: holders_def)

lemma mutex_ok_init: "mutex_ok (init W C)"
  by (simp add: mutex_ok_def init_def holders_def returned_def split: option.splits)

lemma mutex_ok_seeder:
  assumes "seeder_step C s = Some s'" and "mutex_ok s"
  shows "mutex_ok s'"
  using assms
  by (auto simp: seeder_step_def mutex_ok_def holders_def returned_def
           split: seeder_pc.splits if_splits)

lemma mutex_ok_main:
  assumes "main_step C s = Some s'" and "mutex_ok s"
  shows "mutex_ok s'"
  using assms
  by (auto simp: main_step_def mutex_ok_def holders_def wg_Done_def returned_def
           split: main_pc.splits list.splits if_splits)

lemma mutex_ok_worker:
  assumes "worker_step W C i s = Some s'" and "mutex_ok s"
  shows "mutex_ok s'"
proof -
  from assms(1) have i: "i < length (workers s)"
    by (simp add: worker_step_def split: if_splits)
  have le: "holds_mu (pc (workers s ! i)) \<le> holders s"
    by (rule holders_worker [OF i])
  have upd: "\<And>p s0. workers s0 = workers s \<Longrightarrow> holders (set_pc i p s0)
         = holders s0 - holds_mu (pc (workers s ! i)) + holds_mu p"
  proof -
    fix p and s0 :: state assume w: "workers s0 = workers s"
    with i have "i < length (workers s0)" by simp
    from holders_set_pc [OF this, of p] holders_worker [OF this] w
    show "holders (set_pc i p s0) = holders s0 - holds_mu (pc (workers s ! i)) + holds_mu p"
      by simp
  qed
  have ret: "\<And>p (s0 :: state). returned (set_pc i p s0) = returned s0"
    by (simp add: returned_def)
  show ?thesis
  proof (cases "pc (workers s ! i)")
    case WFetch
    with assms i le show ?thesis
      by (auto simp: worker_step_def mutex_ok_def upd ret returned_def split: sum.splits prod.splits)
  next
    case (WLinks links)
    with assms i le show ?thesis
      by (auto simp: worker_step_def mutex_ok_def upd ret returned_def
               split: list.splits option.splits if_splits)
  next
    case (WHold link rest)
    with assms i le show ?thesis
      by (auto simp: worker_step_def mutex_ok_def upd ret returned_def split: if_splits)
  next
    case (WSend link rest)
    with assms i le show ?thesis
      by (auto simp: worker_step_def mutex_ok_def upd ret returned_def split: if_splits)
  next
    case (WUnlock rest)
    with assms i le show ?thesis
      by (auto simp: worker_step_def mutex_ok_def upd ret returned_def split: if_splits)
  next
    case WExit
    with assms i le show ?thesis
      by (auto simp: worker_step_def mutex_ok_def upd ret returned_def wg_Done_def split: if_splits)
  next
    case WDone
    with assms i show ?thesis
      by (simp add: worker_step_def)
  qed
qed

lemma mutex_ok_step:
  assumes "step_fn W C a s = Some s'" and "mutex_ok s"
  shows "mutex_ok s'"
  using assms
  by (cases a) (auto simp: step_fn_def split: if_splits
                     intro: mutex_ok_seeder mutex_ok_main mutex_ok_worker)

lemma reachable_mutex_ok: "reachable W C s \<Longrightarrow> mutex_ok s"
  by (induction rule: reachable.induct) (auto intro: mutex_ok_init mutex_ok_step)

section \<open>The only way to block for ever\<close>

text \<open>
  A reachable state in which nothing can move and \<^verbatim>\<open>DownloadDoc\<close> has not returned has a
  worker standing at its send with the queue full: the crawl has no other deadlock.
\<close>

lemma worker_blocked:
  assumes "worker_step W C i s = None" and "i < length (workers s)"
  shows "pc (workers s ! i) = WDone
         \<or> (mu s \<and> holds_mu (pc (workers s ! i)) = 0)
         \<or> (queue_cap \<le> length (queue s)
             \<and> (case pc (workers s ! i) of WSend link rest \<Rightarrow> True | _ \<Rightarrow> False))"
  using assms
  by (auto simp: worker_step_def
           split: worker_pc.splits list.splits option.splits sum.splits prod.splits if_splits)

lemma main_blocked:
  assumes "main_step C s = None"
  shows "(main s = MRecv \<and> queue s = [] \<and> \<not> closed s) \<or> (\<exists>t. main s = MLock t \<and> mu s)
         \<or> returned s"
  using assms
  by (auto simp: main_step_def returned_def split: main_pc.splits list.splits if_splits)

lemma seeder_blocked:
  assumes "seeder_step C s = None"
  shows "(seeder s = SSend \<and> queue_cap \<le> length (queue s)) \<or> (seeder s = SWait \<and> wg s \<noteq> 0)
         \<or> seeder s = SExit"
  using assms
  by (auto simp: seeder_step_def split: seeder_pc.splits if_splits)

lemma stuck_is_send_blocked:
  assumes r: "reachable W C s" and stuck: "\<forall>a. step_fn W C a s = None" and nr: "\<not> returned s"
  shows "send_blocked s"
proof (rule ccontr)
  assume nb: "\<not> send_blocked s"
  from reachable_paired [OF r] have np: "\<not> panicked s" and wg: "wg s = int (outstanding s)"
    by (simp_all add: paired_def)
  from reachable_mutex_ok [OF r]
  have h: "holders s = (if mu s then 1 else 0)" and ex: "seeder s = SExit \<longrightarrow> closed s \<or> returned s"
    by (simp_all add: mutex_ok_def)
  from stuck np have sd: "seeder_step C s = None" and mn: "main_step C s = None"
    and wk: "\<And>i. worker_step W C i s = None"
    using stuck [rule_format, of Seeder] stuck [rule_format, of Main]
      stuck [rule_format, of "Worker _"]
    by (simp_all add: step_fn_def)
  have each: "pc w = WDone \<or> (mu s \<and> holds_mu (pc w) = 0)" if "w \<in> set (workers s)" for w
  proof -
    from that obtain i where i: "i < length (workers s)" and w: "workers s ! i = w"
      by (auto simp: in_set_conv_nth)
    from worker_blocked [OF wk i] show ?thesis
    proof (elim disjE)
      assume "queue_cap \<le> length (queue s)
        \<and> (case pc (workers s ! i) of WSend link rest \<Rightarrow> True | _ \<Rightarrow> False)"
      with that w have "send_blocked s"
        by (auto simp: send_blocked_def list_ex_iff)
      with nb show ?thesis by simp
    qed (simp_all add: w)
  qed
  have "holds_mu (pc w) = 0" if "w \<in> set (workers s)" for w
    using each [OF that] by (cases "pc w") auto
  then have "\<forall>n \<in> set (map (\<lambda>w. holds_mu (pc w)) (workers s)). n = 0"
    by auto
  then have z: "sum_list (map (\<lambda>w. holds_mu (pc w)) (workers s)) = 0"
    by (simp only: sum_list_eq_0_iff)
  from main_blocked [OF mn] nr
  have m: "(main s = MRecv \<and> queue s = [] \<and> \<not> closed s) \<or> (\<exists>t. main s = MLock t \<and> mu s)"
    by simp
  then have "holders s = 0" using z by (auto simp: holders_def)
  with h have nomu: "\<not> mu s" by (simp split: if_splits)
  with m have m': "main s = MRecv" "queue s = []" "\<not> closed s" by auto
  have "worker_count (pc w) = 0" if "w \<in> set (workers s)" for w
    using each [OF that] nomu by (cases "pc w") auto
  then have "\<forall>n \<in> set (map (\<lambda>w. worker_count (pc w)) (workers s)). n = 0"
    by auto
  then have "sum_list (map (\<lambda>w. worker_count (pc w)) (workers s)) = 0"
    by (simp only: sum_list_eq_0_iff)
  with m' wg have w0: "wg s = (if seeder s = SSend then 1 else 0)"
    by (simp add: outstanding_def)
  from seeder_blocked [OF sd] show False
  proof (elim disjE)
    assume "seeder s = SSend \<and> queue_cap \<le> length (queue s)"
    with m' show False by (simp add: queue_cap_def)
  next
    assume "seeder s = SWait \<and> wg s \<noteq> 0"
    with w0 show False by simp
  next
    assume "seeder s = SExit"
    with ex m' nr show False by simp
  qed
qed

section \<open>Every run is finite\<close>

lemma task_cost_ge: "5 \<le> task_cost W C k u"
  by (cases k) simp_all

lemma queued_cost_ge: "5 \<le> queued_cost W C t"
  by (simp add: queued_cost_def task_cost_ge)

lemma links_cost_Cons:
  "links_cost W C k (l # rest) = 4 + task_cost W C k l + links_cost W C k rest"
  by (simp add: links_cost_def)

lemma links_cost_Nil: "links_cost W C k [] = 2"
  by (simp add: links_cost_def)

lemma fuel_Suc: "d \<le> maxDepth C \<Longrightarrow> fuel C d = Suc (fuel C (d + 1))"
  by (simp add: fuel_def nat_add_distrib) 

lemma queued_cost_fetch:
  assumes "depth t \<le> maxDepth C"
  shows "queued_cost W C t = 5 + links_cost W C (fuel C (depth t + 1)) (links_of W C (url t))"
  by (simp add: queued_cost_def fuel_Suc [OF assms] links_cost_def)

lemma potential_seeder:
  assumes "seeder_step C s = Some s'" and "\<not> panicked s"
  shows "potential W C s' < potential W C s"
  using assms
  by (auto simp: seeder_step_def potential_def split: seeder_pc.splits if_splits)

lemma potential_main:
  assumes "main_step C s = Some s'" and "\<not> panicked s"
  shows "potential W C s' < potential W C s"
proof (cases "main s")
  case MRecv
  with assms show ?thesis
    by (auto simp: main_step_def potential_def split: list.splits if_splits)
next
  case (MLock t)
  with assms queued_cost_ge [of W C t] show ?thesis
    by (auto simp: main_step_def potential_def split: if_splits)
next
  case (MCheck t)
  with assms queued_cost_ge [of W C t] show ?thesis
    by (auto simp: main_step_def potential_def split: if_splits)
next
  case (MDepth t)
  show ?thesis
  proof (cases "maxDepth C < depth t")
    case True
    with MDepth assms queued_cost_ge [of W C t] show ?thesis
      by (auto simp: main_step_def potential_def)
  next
    case False
    then have "depth t \<le> maxDepth C" by simp
    from queued_cost_fetch [OF this, of W] False MDepth assms show ?thesis
      by (auto simp: main_step_def potential_def worker_cost_def)
  qed
next
  case (MDone t)
  with assms show ?thesis
    by (auto simp: main_step_def potential_def wg_Done_def)
next
  case (MReturned r)
  with assms show ?thesis by (simp add: main_step_def)
qed


lemma potential_update [simp]:
  "potential W C (s\<lparr>mu := b\<rparr>) = potential W C s"
  "potential W C (s\<lparr>wg := n\<rparr>) = potential W C s"
  "potential W C (s\<lparr>indexed := x\<rparr>) = potential W C s"
  "potential W C (s\<lparr>queue := queue s @ [t]\<rparr>) = potential W C s + queued_cost W C t"
  by (simp_all add: potential_def)

lemma potential_panic:
  "\<not> panicked s \<Longrightarrow> potential W C (s\<lparr>panicked := True\<rparr>) < potential W C s"
  by (simp add: potential_def)

lemma potential_set_pc:
  assumes "i < length (workers s)"
  shows "potential W C (set_pc i p s)
           + pc_cost W C (fuel C (currentDepth (workers s ! i) + 1)) (currentURL (workers s ! i))
               (pc (workers s ! i))
         = potential W C s
           + pc_cost W C (fuel C (currentDepth (workers s ! i) + 1)) (currentURL (workers s ! i)) p"
  using sum_list_map_update [OF assms, of "worker_cost W C" "(workers s ! i)\<lparr>pc := p\<rparr>"]
  by (simp add: potential_def set_pc_def worker_cost_def)

lemma potential_worker:
  assumes "worker_step W C i s = Some s'" and "\<not> panicked s"
  shows "potential W C s' < potential W C s"
proof -
  from assms(1) have i: "i < length (workers s)"
    by (simp add: worker_step_def split: if_splits)
  let ?w = "workers s ! i"
  let ?k = "fuel C (currentDepth ?w + 1)"
  let ?u = "currentURL ?w"
  have upd: "potential W C (set_pc i p s0) + pc_cost W C ?k ?u (pc ?w)
             = potential W C s0 + pc_cost W C ?k ?u p"
    if "workers s0 = workers s" for p and s0 :: state
    using potential_set_pc [of i s0 W C p] i that by simp
  show ?thesis
  proof (cases "pc ?w")
    case WFetch
    show ?thesis
    proof (cases "fetchAndProcess_io W C ?u (initialHost W C)")
      case (Inl e)
      with WFetch assms i have "s' = set_pc i WExit s"
        by (simp add: worker_step_def)
      with upd [of s WExit] WFetch Inl show ?thesis
        by (simp add: links_of_def links_cost_Nil)
    next
      case (Inr res)
      obtain filePath plainText links where res: "res = (filePath, plainText, links)"
        by (cases res) auto
      with Inr WFetch assms i
      have "s' = set_pc i (WLinks links) (s\<lparr>indexed := indexed s @ [(filePath, plainText)]\<rparr>)"
        by (simp add: worker_step_def)
      with upd [of "s\<lparr>indexed := indexed s @ [(filePath, plainText)]\<rparr>" "WLinks links"]
        WFetch Inr res show ?thesis
        by (simp add: links_of_def)
    qed
  next
    case (WLinks links)
    show ?thesis
    proof (cases links)
      case Nil
      with WLinks assms i have "s' = set_pc i WExit s"
        by (simp add: worker_step_def)
      with upd [of s WExit] WLinks Nil show ?thesis
        by (simp add: links_cost_Nil)
    next
      case (Cons link rest)
      with WLinks assms i
      have "s' = set_pc i (WLinks rest) s \<or> s' = set_pc i (WHold link rest) (s\<lparr>mu := True\<rparr>)"
        by (auto simp: worker_step_def split: option.splits if_splits)
      with upd [of s "WLinks rest"] upd [of "s\<lparr>mu := True\<rparr>" "WHold link rest"] WLinks Cons
      show ?thesis
        by (auto simp: links_cost_Cons)
    qed
  next
    case (WHold link rest)
    with assms i
    have "s' = set_pc i (WLinks rest) (s\<lparr>mu := False\<rparr>)
          \<or> s' = set_pc i (WSend link rest) (s\<lparr>wg := wg s + 1\<rparr>)"
      by (auto simp: worker_step_def split: if_splits)
    with upd [of "s\<lparr>mu := False\<rparr>" "WLinks rest"]
      upd [of "s\<lparr>wg := wg s + 1\<rparr>" "WSend link rest"] WHold
    show ?thesis by auto
  next
    case (WSend link rest)
    let ?t = "Task link (currentDepth ?w + 1)"
    from WSend assms i
    have "s' = s\<lparr>panicked := True\<rparr> \<or> s' = set_pc i (WUnlock rest) (s\<lparr>queue := queue s @ [?t]\<rparr>)"
      by (auto simp: worker_step_def split: if_splits)
    with upd [of "s\<lparr>queue := queue s @ [?t]\<rparr>" "WUnlock rest"] WSend
      potential_panic [OF assms(2), of W C]
    show ?thesis by (auto simp: queued_cost_def)
  next
    case (WUnlock rest)
    with assms i have "s' = set_pc i (WLinks rest) (s\<lparr>mu := False\<rparr>)"
      by (simp add: worker_step_def)
    with upd [of "s\<lparr>mu := False\<rparr>" "WLinks rest"] WUnlock show ?thesis by simp
  next
    case WExit
    with assms i have s': "s' = set_pc i WDone (wg_Done s)"
      by (simp add: worker_step_def)
    have "potential W C (wg_Done s) \<le> potential W C s"
      using potential_panic [OF assms(2), of W C] by (simp add: wg_Done_def)
    moreover have "workers (wg_Done s) = workers s" by (simp add: wg_Done_def)
    ultimately show ?thesis using upd [of "wg_Done s" WDone] WExit s' by simp
  next
    case WDone
    with assms i show ?thesis by (simp add: worker_step_def)
  qed
qed

lemma potential_step:
  assumes "step_fn W C a s = Some s'"
  shows "potential W C s' < potential W C s"
  using assms
  by (cases a) (auto simp: step_fn_def split: if_splits
                     intro: potential_seeder potential_main potential_worker)

lemma run_potential:
  "run W C sched s = Some s' \<Longrightarrow> length sched + potential W C s' \<le> potential W C s"
proof (induction sched arbitrary: s)
  case Nil
  then show ?case by simp
next
  case (Cons a sched)
  then obtain s1 where a: "step_fn W C a s = Some s1" and rest: "run W C sched s1 = Some s'"
    by (auto split: option.splits)
  from Cons.IH [OF rest] potential_step [OF a] show ?case by simp
qed

text \<open>
  So the crawl has no livelock: a schedule that runs from the start has at most
  \<open>potential W C (init W C)\<close> steps, whatever the site, and when nothing can move any
  more \<^verbatim>\<open>DownloadDoc\<close> has returned or a worker is blocked at its send on the full queue.
\<close>

lemma crawl_runs_are_bounded:
  "run W C sched (init W C) = Some s \<Longrightarrow> length sched \<le> potential W C (init W C)"
  using run_potential [of W C sched "init W C" s] by simp

lemma crawl_ends_or_blocks_on_send:
  assumes "reachable W C s" and "\<forall>a. step_fn W C a s = None"
  shows "returned s \<or> send_blocked s"
  using stuck_is_send_blocked [OF assms] by blast

section \<open>The example crawls\<close>

lemmas ex_defs = ex_world_def ex_crawl_def ex_Parse_def ex_Host_def ex_Path_def anchor_def
  ex_root_def ex_leaf_def
lemmas step_defs = step_fn_def seeder_step_def main_step_def worker_step_def set_pc_def
  wg_Done_def queue_cap_def initialHost_def
lemmas fetch_defs = fetchAndProcess_io_def relativePath_of_def TrimPrefix_def HasSuffix_def
  colons_to_underscores_def extractText_def own_links_def resolveURL_def

lemma ex_run: "run ex_world ex_crawl ex_schedule (init ex_world ex_crawl) = Some ex_final"
  by (simp add: ex_schedule_def ex_final_def init_def ex_defs step_defs fetch_defs)

lemma ex_final_reachable: "reachable ex_world ex_crawl ex_final"
  using run_reachable [OF ex_run reachable.reach_init] .

lemma ex_run0: "run ex_world ex_crawl0 ex_schedule0 (init ex_world ex_crawl0) = Some ex_before"
  by (simp add: ex_schedule0_def ex_before_def ex_crawl0_def init_def ex_defs step_defs fetch_defs)

lemma ex_before_reachable: "reachable ex_world ex_crawl0 ex_before"
  using run_reachable [OF ex_run0 reachable.reach_init] .

lemma ex_step0: "step_fn ex_world ex_crawl0 Main ex_before = Some ex_after"
  by (simp add: ex_before_def ex_after_def step_fn_def main_step_def)

lemma ex_after_reachable: "reachable ex_world ex_crawl0 ex_after"
  using reachable.reach_step [OF ex_before_reachable ex_step0] .

lemma ex_run_ro_start:
  "run ex_world_ro ex_crawl [Seeder, Main, Main, Main, Main] (init ex_world_ro ex_crawl)
     = Some ex_ro_start"
  by (simp add: ex_ro_start_def ex_world_ro_def init_def ex_defs step_defs)

lemma ex_ro_start_reachable: "reachable ex_world_ro ex_crawl ex_ro_start"
  using run_reachable [OF ex_run_ro_start reachable.reach_init] .

lemma ex_run_ro_final:
  "run ex_world_ro ex_crawl [Worker 0, Worker 0, Seeder, Seeder, Main] ex_ro_start
     = Some ex_ro_final"
  by (simp add: ex_ro_start_def ex_ro_final_def ex_world_ro_def ex_defs step_defs fetch_defs)


lemma ex_run1: "run ex_world ex_crawl ex_schedule1 (init ex_world ex_crawl) = Some ex_second"
  by (simp add: ex_schedule1_def ex_second_def init_def ex_defs step_defs fetch_defs)

lemma ex_second_reachable: "reachable ex_world ex_crawl ex_second"
  using run_reachable [OF ex_run1 reachable.reach_init] .

lemma ex_run2: "run ex_world ex_crawl [Main, Main, Worker 2] ex_second = Some ex_third"
  by (simp add: ex_second_def ex_third_def ex_defs step_defs fetch_defs)

section \<open>Filling the queue\<close>

lemma run_append:
  "run W C (xs @ ys) s = (case run W C xs s of None \<Rightarrow> None | Some s' \<Rightarrow> run W C ys s')"
  by (induction xs arbitrary: s) (simp_all split: option.splits)

lemma run_comp:
  "run W C xs s = Some s1 \<Longrightarrow> run W C ys s1 = Some s2 \<Longrightarrow> run W C (xs @ ys) s = Some s2"
  by (simp add: run_append)

lemma send_burst:
  assumes "\<forall>l \<in> set ls. same_host W C l \<and> \<not> v l"
    and "length q + length ls \<le> queue_cap"
  shows "run W C (send_schedule (length ls)) (sending q v n m u d (WLinks (ls @ rest)) ix False)
         = Some (sending (q @ map (\<lambda>l. Task l (d + 1)) ls) v (n + int (length ls)) m u d
                   (WLinks rest) ix False)"
  using assms
proof (induction ls arbitrary: q n)
  case Nil
  then show ?case by (simp add: send_schedule_def)
next
  case (Cons l ls)
  from Cons.prems have h: "same_host W C l" and nv: "\<not> v l" and len: "length q < queue_cap"
    by simp_all
  from h obtain pl where pl: "url_Parse W l = Some pl" "url_Host W pl = initialHost W C"
    by (auto simp: same_host_def link_host_def)
  have one: "run W C [Worker 0, Worker 0, Worker 0, Worker 0]
               (sending q v n m u d (WLinks ((l # ls) @ rest)) ix False)
             = Some (sending (q @ [Task l (d + 1)]) v (n + 1) m u d (WLinks (ls @ rest)) ix False)"
    using pl nv len
    by (simp add: sending_def step_fn_def worker_step_def set_pc_def)
  have "run W C (send_schedule (length ls))
          (sending (q @ [Task l (d + 1)]) v (n + 1) m u d (WLinks (ls @ rest)) ix False)
        = Some (sending ((q @ [Task l (d + 1)]) @ map (\<lambda>l. Task l (d + 1)) ls) v
                  ((n + 1) + int (length ls)) m u d (WLinks rest) ix False)"
    using Cons.prems by (intro Cons.IH) simp_all
  with one show ?case
    using run_append [of W C "[Worker 0, Worker 0, Worker 0, Worker 0]" "send_schedule (length ls)"]
    by (simp add: send_schedule_def add.assoc)
qed

lemma deadlock_state_stuck:
  assumes "length mid = queue_cap"
  shows "deadlocked W C (deadlock_state C filePath plainText l0 mid l1 rest)"
proof -
  have "step_fn W C a (deadlock_state C filePath plainText l0 mid l1 rest) = None" for a
  proof (cases a)
    case (Worker i)
    with assms show ?thesis
      by (cases i)
         (simp_all add: deadlock_state_def sending_def step_fn_def worker_step_def)
  qed (simp_all add: deadlock_state_def sending_def step_fn_def seeder_step_def main_step_def
         queue_cap_def)
  then show ?thesis
    by (simp add: deadlocked_def returned_def deadlock_state_def sending_def)
qed

lemma deadlock_run:
  assumes parse: "url_Parse W (URL (doc C)) = Some initialURL"
    and fresh: "\<not> visitedURLs0 C (URL (doc C))"
    and depth: "0 \<le> maxDepth C"
    and fetch: "fetchAndProcess_io W C (URL (doc C)) (initialHost W C)
                 = Inr (filePath, plainText, l0 # mid @ l1 # rest)"
    and len: "length mid = queue_cap"
    and links: "\<forall>l \<in> set (l0 # mid @ [l1]).
                  same_host W C l \<and> l \<noteq> URL (doc C) \<and> \<not> visitedURLs0 C l"
  shows "run W C deadlock_schedule (init W C)
         = Some (deadlock_state C filePath plainText l0 mid l1 rest)"
proof -
  let ?seed = "URL (doc C)"
  let ?v = "(visitedURLs0 C)(?seed := True)"
  let ?ix = "[(filePath, plainText)]"
  have a: "run W C [Seeder, Main, Main, Main, Main, Worker 0] (init W C)
           = Some (sending [] ?v 1 MRecv ?seed 0 (WLinks (l0 # mid @ l1 # rest)) ?ix False)"
    using parse fresh depth fetch
    by (simp add: init_def sending_def step_fn_def seeder_step_def main_step_def worker_step_def
                  set_pc_def queue_cap_def)
  have b: "run W C (send_schedule 1)
             (sending [] ?v 1 MRecv ?seed 0 (WLinks (l0 # mid @ l1 # rest)) ?ix False)
           = Some (sending [Task l0 1] ?v 2 MRecv ?seed 0 (WLinks (mid @ l1 # rest)) ?ix False)"
    using links send_burst [of "[l0]" W C ?v "[]" 1 MRecv ?seed 0 "mid @ l1 # rest" ?ix]
    by (simp add: queue_cap_def)
  have c: "run W C [Main] (sending [Task l0 1] ?v 2 MRecv ?seed 0 (WLinks (mid @ l1 # rest)) ?ix False)
           = Some (sending [] ?v 2 (MLock (Task l0 1)) ?seed 0 (WLinks (mid @ l1 # rest)) ?ix False)"
    by (simp add: sending_def step_fn_def main_step_def)
  have d: "run W C (send_schedule queue_cap)
             (sending [] ?v 2 (MLock (Task l0 1)) ?seed 0 (WLinks (mid @ l1 # rest)) ?ix False)
           = Some (sending (map (\<lambda>l. Task l 1) mid) ?v (2 + int queue_cap)
                     (MLock (Task l0 1)) ?seed 0 (WLinks (l1 # rest)) ?ix False)"
    using links len
      send_burst [of mid W C ?v "[]" 2 "MLock (Task l0 1)" ?seed 0 "l1 # rest" ?ix]
    by simp
  from links obtain pl where pl: "url_Parse W l1 = Some pl" "url_Host W pl = initialHost W C"
    and nv: "\<not> ?v l1"
    by (auto simp: same_host_def link_host_def)
  have e: "run W C [Worker 0, Worker 0]
             (sending (map (\<lambda>l. Task l 1) mid) ?v (2 + int queue_cap) (MLock (Task l0 1)) ?seed 0
                (WLinks (l1 # rest)) ?ix False)
           = Some (deadlock_state C filePath plainText l0 mid l1 rest)"
    using pl nv
    by (simp add: deadlock_state_def sending_def step_fn_def worker_step_def set_pc_def)
  show ?thesis
    unfolding deadlock_schedule_def
    by (rule run_comp [OF a run_comp [OF b run_comp [OF c run_comp [OF d e]]]])
qed

lemma extractText_anchors: "fold extractText_f (map anchor ls) b = b"
  by (induction ls) (simp_all add: anchor_def)

lemma extractLinks_anchors:
  assumes "\<forall>l \<in> set ls. resolveURL W baseURL l = l \<and> l \<noteq> []"
  shows "extractLinks W (Node DocumentNode [] [] (map anchor ls)) baseURL = ls"
proof -
  have "concat (map (\<lambda>c. extractLinks W c baseURL) (map anchor ls)) = ls"
    using assms by (induction ls) (simp_all add: anchor_def own_links_def)
  then show ?thesis by (simp add: own_links_def)
qed

lemma wide_link_facts:
  "wide_link k \<noteq> []" "wide_link k \<noteq> ''http://example.test/''"
  "ex_Parse (wide_link k) = Some (wide_link k)" "ex_Host (wide_link k) = ''example.test''"
  by (simp_all add: wide_link_def ex_Parse_def ex_Host_def)

lemma wide_world_facts:
  "url_Parse ex_world_wide = ex_Parse" "url_Host ex_world_wide = ex_Host"
  "url_String ex_world_wide = (\<lambda>u. u)" "url_ResolveReference ex_world_wide = (\<lambda>base rel. rel)"
  "initialHost ex_world_wide ex_crawl = ''example.test''"
  "ex_Parse ''http://example.test/'' = Some ''http://example.test/''"
  "URL (doc ex_crawl) = ''http://example.test/''"
  by (simp_all add: ex_world_wide_def ex_world_def ex_crawl_def initialHost_def ex_Parse_def
        ex_Host_def)

lemma wide_links_ok:
  "\<forall>l \<in> set wide_links. same_host ex_world_wide ex_crawl l \<and> l \<noteq> URL (doc ex_crawl)
      \<and> \<not> visitedURLs0 ex_crawl l"
proof -
  have "same_host ex_world_wide ex_crawl (wide_link k) \<and> wide_link k \<noteq> URL (doc ex_crawl)
      \<and> \<not> visitedURLs0 ex_crawl (wide_link k)" for k
    by (simp add: wide_link_facts wide_world_facts same_host_def link_host_def)
       (simp add: ex_crawl_def)
  then show ?thesis
    by (auto simp: wide_links_def wide_mid_def)
qed

lemma wide_fetch:
  "fetchAndProcess_io ex_world_wide ex_crawl (URL (doc ex_crawl)) (initialHost ex_world_wide ex_crawl)
     = Inr (''/dl/ex/1/index.html'', [], wide_links)"
proof -
  have "resolveURL ex_world_wide ''http://example.test/'' (wide_link k) = wide_link k
      \<and> wide_link k \<noteq> []" for k
    by (simp add: wide_link_facts wide_world_facts resolveURL_def)
  then have "\<forall>l \<in> set wide_links. resolveURL ex_world_wide ''http://example.test/'' l = l \<and> l \<noteq> []"
    by (auto simp: wide_links_def wide_mid_def)
  from extractLinks_anchors [OF this] show ?thesis
    by (simp add: ex_world_wide_def ex_wide_root_def extractText_anchors ex_world_def ex_crawl_def
          ex_Parse_def ex_Host_def ex_Path_def fetchAndProcess_io_def relativePath_of_def
          TrimPrefix_def HasSuffix_def colons_to_underscores_def extractText_def initialHost_def)
qed

section \<open>The claims about the crawl\<close>

text \<open>
  Claim C1 says that \<^verbatim>\<open>DownloadDoc\<close> terminates on every finite link graph. The pairing
  of \<^verbatim>\<open>wg.Add\<close> and \<^verbatim>\<open>wg.Done\<close> that the claim describes does hold (lemma
  \<open>reachable_paired\<close>: in every reachable state the counter equals the number of
  outstanding tasks, and nothing has panicked), and no run goes on for ever (lemma
  \<open>crawl_runs_are_bounded\<close>), but termination does not follow.
  The worker sends to the 100-slot queue while it holds the mutex (lines 169 to 180), and
  the loop, the queue's only receiver, needs the same mutex for every task it has received
  (line 71). Whenever the seed parses, is not yet visited, and its page has
  \<open>queue_cap + 2\<close> in-domain links that are not yet visited, a state is reachable in
  which no goroutine can ever move and \<^verbatim>\<open>DownloadDoc\<close> has not returned.
\<close>

theorem C1_wide_page_deadlock:
  assumes "url_Parse W (URL (doc C)) = Some initialURL"
    and "\<not> visitedURLs0 C (URL (doc C))"
    and "0 \<le> maxDepth C"
    and "fetchAndProcess_io W C (URL (doc C)) (initialHost W C)
           = Inr (filePath, plainText, l0 # mid @ l1 # rest)"
    and "length mid = queue_cap"
    and "\<forall>l \<in> set (l0 # mid @ [l1]).
           same_host W C l \<and> l \<noteq> URL (doc C) \<and> \<not> visitedURLs0 C l"
  shows "reachable W C (deadlock_state C filePath plainText l0 mid l1 rest)
         \<and> deadlocked W C (deadlock_state C filePath plainText l0 mid l1 rest)"
  using run_reachable [OF deadlock_run [OF assms] reachable.reach_init]
    deadlock_state_stuck [OF assms(5)]
  by simp

theorem C1_wide_page_deadlock_witness:
  "reachable ex_world_wide ex_crawl
     (deadlock_state ex_crawl ''/dl/ex/1/index.html'' [] (wide_link 0) wide_mid (wide_link 101) [])
   \<and> deadlocked ex_world_wide ex_crawl
     (deadlock_state ex_crawl ''/dl/ex/1/index.html'' [] (wide_link 0) wide_mid (wide_link 101) [])
   \<and> length wide_links = 102"
proof -
  have p: "url_Parse ex_world_wide (URL (doc ex_crawl)) = Some ''http://example.test/''"
    by (simp add: wide_world_facts)
  have v: "\<not> visitedURLs0 ex_crawl (URL (doc ex_crawl))" and d: "0 \<le> maxDepth ex_crawl"
    by (simp_all add: ex_crawl_def)
  have f: "fetchAndProcess_io ex_world_wide ex_crawl (URL (doc ex_crawl))
             (initialHost ex_world_wide ex_crawl)
           = Inr (''/dl/ex/1/index.html'', [], wide_link 0 # wide_mid @ wide_link 101 # [])"
    using wide_fetch by (simp add: wide_links_def)
  have n: "length wide_mid = queue_cap"
    by (simp add: wide_mid_def queue_cap_def)
  have l: "\<forall>l \<in> set (wide_link 0 # wide_mid @ [wide_link 101]).
      same_host ex_world_wide ex_crawl l \<and> l \<noteq> URL (doc ex_crawl) \<and> \<not> visitedURLs0 ex_crawl l"
    using wide_links_ok by (simp add: wide_links_def)
  from C1_wide_page_deadlock [OF p v d f n l] n show ?thesis
    by (simp add: wide_links_def queue_cap_def)
qed

text \<open>
  Claim C2. In every state a crawl can reach, under any schedule, the URLs on which
  \<^verbatim>\<open>fetchAndProcess\<close> has been started are pairwise different strings, and so are the
  URLs that have been requested over the network (a worker requests its own URL, once):
  no URL string is processed or fetched twice. Each started URL is in the visited map,
  where the loop put it under the mutex before dispatching.
\<close>

theorem C2_fetch_at_most_once:
  assumes "reachable W C s"
  shows "distinct (invoked s) \<and> distinct (fetched s) \<and> set (fetched s) \<subseteq> set (invoked s)
         \<and> (\<forall>u \<in> set (invoked s). visitedURLs s u)"
proof -
  from reachable_claimed_once [OF assms] have "distinct (invoked s)"
    and "\<forall>u \<in> set (invoked s). visitedURLs s u"
    by (simp_all add: claimed_once_def)
  moreover from \<open>distinct (invoked s)\<close> have "distinct (fetched s)"
    by (simp add: invoked_def fetched_def distinct_map_filter)
  moreover have "set (fetched s) \<subseteq> set (invoked s)"
    by (auto simp: invoked_def fetched_def)
  ultimately show ?thesis by simp
qed

theorem C2_fetch_at_most_once_witness:
  "reachable ex_world ex_crawl ex_final
   \<and> fetched ex_final =
       [''http://example.test/'', ''http://example.test/a'', ''http://example.test/a#x'']
   \<and> distinct (fetched ex_final) \<and> distinct (invoked ex_final)"
  using C2_fetch_at_most_once [OF ex_final_reachable] ex_final_reachable
  by (simp add: fetched_def ex_final_def)

text \<open>
  Claim C3. In every reachable state each started \<^verbatim>\<open>fetchAndProcess\<close> runs at a depth
  that is at most \<^verbatim>\<open>maxDepth\<close>; and when the loop stands at its depth test with a task
  deeper than \<^verbatim>\<open>maxDepth\<close>, its next step goes to \<^verbatim>\<open>wg.Done()\<close> and starts no worker,
  so a task dequeued at depth \<^verbatim>\<open>maxDepth + 1\<close> is never fetched.
\<close>

theorem C3_depth_bound:
  assumes "reachable W C s"
  shows "(\<forall>w \<in> set (workers s). currentDepth w \<le> maxDepth C)
         \<and> (\<forall>t. main s = MDepth t \<and> maxDepth C < depth t \<longrightarrow>
               step_fn W C Main s = Some (s\<lparr>main := MDone t\<rparr>))"
proof -
  from reachable_within_depth [OF assms]
  have "\<forall>w \<in> set (workers s). currentDepth w \<le> maxDepth C"
    by (simp add: within_depth_def)
  moreover from reachable_paired [OF assms] have "\<not> panicked s"
    by (simp add: paired_def)
  then have "\<forall>t. main s = MDepth t \<and> maxDepth C < depth t \<longrightarrow>
               step_fn W C Main s = Some (s\<lparr>main := MDone t\<rparr>)"
    by (simp add: step_fn_def main_step_def)
  ultimately show ?thesis by simp
qed

theorem C3_depth_bound_witness:
  "reachable ex_world ex_crawl0 ex_after
   \<and> main ex_after = MDepth (Task ''http://example.test/a'' 1)
   \<and> maxDepth ex_crawl0 < depth (Task ''http://example.test/a'' 1)
   \<and> step_fn ex_world ex_crawl0 Main ex_after
       = Some (ex_after\<lparr>main := MDone (Task ''http://example.test/a'' 1)\<rparr>)
   \<and> map currentDepth (workers ex_after) = [0]"
  using C3_depth_bound [OF ex_after_reachable] ex_after_reachable
  by (simp add: ex_after_def ex_before_def ex_crawl0_def ex_crawl_def)

text \<open>
  Claim C4, as the code has it. The loop claims a dequeued URL before it looks at the depth
  (lines 72 to 83). For a dequeued task deeper than \<^verbatim>\<open>maxDepth\<close>, the loop's own next steps
  put the task's URL into the visited map if it was not there, start no worker, and count
  the task as done (\<^verbatim>\<open>wg.Done()\<close>); the queue and every other entry of the map are as before.
\<close>

theorem C4_deep_task_claimed_not_fetched:
  "reachable W C s \<and> main s = MCheck t \<and> maxDepth C < depth t \<longrightarrow>
     run W C (if visitedURLs s (url t) then [Main, Main] else [Main, Main, Main]) s
       = Some (s\<lparr>visitedURLs := (visitedURLs s)(url t := True), wg := wg s - 1,
                  mu := False, main := MRecv\<rparr>)"
proof -
  have "run W C (if visitedURLs s (url t) then [Main, Main] else [Main, Main, Main]) s
       = Some (s\<lparr>visitedURLs := (visitedURLs s)(url t := True), wg := wg s - 1,
                  mu := False, main := MRecv\<rparr>)"
    if r: "reachable W C s" and m: "main s = MCheck t" and d: "maxDepth C < depth t"
  proof -
    from reachable_wg_pos(1) [OF r] have p: "\<not> panicked s" .
    from reachable_wg_pos(2) [OF r, of t] m have w: "0 < wg s" by simp
    show ?thesis
    proof (cases "visitedURLs s (url t)")
      case True
      then have "(visitedURLs s)(url t := True) = visitedURLs s"
        by (simp add: fun_upd_idem)
      with True p w m show ?thesis
        by (simp add: step_fn_def main_step_def wg_Done_def)
    next
      case False
      with p w m d show ?thesis
        by (simp add: step_fn_def main_step_def wg_Done_def)
    qed
  qed
  then show ?thesis by blast
qed

theorem C4_deep_task_claimed_not_fetched_witness:
  "reachable ex_world ex_crawl0 ex_before
   \<and> main ex_before = MCheck (Task ''http://example.test/a'' 1)
   \<and> maxDepth ex_crawl0 < depth (Task ''http://example.test/a'' 1)
   \<and> run ex_world ex_crawl0 [Main, Main, Main] ex_before
       = Some (ex_before\<lparr>visitedURLs := (visitedURLs ex_before)(''http://example.test/a'' := True),
                          wg := 1, mu := False, main := MRecv\<rparr>)"
  using C4_deep_task_claimed_not_fetched
    [of ex_world ex_crawl0 ex_before "Task ''http://example.test/a'' 1"]
    ex_before_reachable
  by (simp add: ex_before_def ex_crawl0_def ex_crawl_def)

text \<open>
  The claim as stated says the visited map is left unchanged. In the crawl of the example
  site with depth bound 0, the task for \<^verbatim>\<open>/a\<close> is dequeued at depth 1 with \<^verbatim>\<open>/a\<close> not in
  the map, and the loop's next step puts it there.
\<close>

theorem C4_visited_unchanged_counterexample:
  "reachable ex_world ex_crawl0 ex_before
   \<and> main ex_before = MCheck (Task ''http://example.test/a'' 1)
   \<and> maxDepth ex_crawl0 < depth (Task ''http://example.test/a'' 1)
   \<and> \<not> visitedURLs ex_before ''http://example.test/a''
   \<and> step_fn ex_world ex_crawl0 Main ex_before = Some ex_after
   \<and> visitedURLs ex_after ''http://example.test/a''
   \<and> visitedURLs ex_after \<noteq> visitedURLs ex_before"
proof -
  have "visitedURLs ex_after ''http://example.test/a''"
    and "\<not> visitedURLs ex_before ''http://example.test/a''"
    by (simp_all add: ex_after_def ex_before_def)
  then have "visitedURLs ex_after \<noteq> visitedURLs ex_before" by metis
  then show ?thesis
    using ex_before_reachable ex_step0
    by (simp add: ex_before_def ex_after_def ex_crawl0_def ex_crawl_def)
qed

lemma storage_fails_io:
  assumes "storage_fails W C u"
  shows "fetchAndProcess_io W C u (initialHost W C) = Inl MkdirError
         \<or> fetchAndProcess_io W C u (initialHost W C) = Inl WriteError"
  using assms
  by (auto simp: storage_fails_def fetchAndProcess_io_def Let_def split: option.splits)

text \<open>
  Claim C5, as the code has it. \<^verbatim>\<open>fetchAndProcess\<close> returns at a failed \<^verbatim>\<open>os.MkdirAll\<close>
  or \<^verbatim>\<open>ioutil.WriteFile\<close> (lines 135 to 144), before the page is parsed. For a worker
  about to fetch a page whose storage fails, its two steps are the fetch and the deferred
  \<^verbatim>\<open>wg.Done()\<close>: the task is marked done, nothing is indexed and no link is enqueued.
\<close>

theorem C5_storage_failure_ends_task:
  "reachable W C s \<and> i < length (workers s) \<and> pc (workers s ! i) = WFetch
   \<and> storage_fails W C (currentURL (workers s ! i)) \<longrightarrow>
     (fetchAndProcess_io W C (currentURL (workers s ! i)) (initialHost W C) = Inl MkdirError
      \<or> fetchAndProcess_io W C (currentURL (workers s ! i)) (initialHost W C) = Inl WriteError)
     \<and> run W C [Worker i, Worker i] s = Some (set_pc i WDone (s\<lparr>wg := wg s - 1\<rparr>))"
proof -
  have "run W C [Worker i, Worker i] s = Some (set_pc i WDone (s\<lparr>wg := wg s - 1\<rparr>))"
    if r: "reachable W C s" and i: "i < length (workers s)" and f: "pc (workers s ! i) = WFetch"
      and e: "fetchAndProcess_io W C (currentURL (workers s ! i)) (initialHost W C) = Inl err"
    for err
  proof -
    from reachable_wg_pos(1) [OF r] have p: "\<not> panicked s" .
    from reachable_wg_pos(3) [OF r i] f have w: "0 < wg s" by simp
    from p w i f e show ?thesis
      by (simp add: step_fn_def worker_step_def set_pc_def wg_Done_def)
  qed
  with storage_fails_io [of W C "currentURL (workers s ! i)"] show ?thesis by blast
qed

theorem C5_storage_failure_ends_task_witness:
  "reachable ex_world_ro ex_crawl ex_ro_start
   \<and> pc (workers ex_ro_start ! 0) = WFetch
   \<and> storage_fails ex_world_ro ex_crawl (currentURL (workers ex_ro_start ! 0))
   \<and> fetchAndProcess_io ex_world_ro ex_crawl ''http://example.test/'' (initialHost ex_world_ro ex_crawl)
        = Inl MkdirError
   \<and> run ex_world_ro ex_crawl [Worker 0, Worker 0] ex_ro_start
        = Some (set_pc 0 WDone (ex_ro_start\<lparr>wg := 0\<rparr>))"
proof -
  have "storage_fails ex_world_ro ex_crawl (currentURL (workers ex_ro_start ! 0))"
    by (simp add: storage_fails_def ex_ro_start_def ex_world_ro_def ex_defs)
  moreover have "fetchAndProcess_io ex_world_ro ex_crawl ''http://example.test/''
      (initialHost ex_world_ro ex_crawl) = Inl MkdirError"
    by (simp add: ex_world_ro_def ex_defs fetch_defs initialHost_def)
  ultimately show ?thesis
    using C5_storage_failure_ends_task [of ex_world_ro ex_crawl ex_ro_start 0]
      ex_ro_start_reachable
    by (simp add: ex_ro_start_def)
qed

text \<open>
  The claim as stated says the page's in-domain links are enqueued all the same. On the
  example site with no directory creatable, the seed page has the in-domain link \<^verbatim>\<open>/a\<close>;
  after the seed's dispatch only its worker can move, and the crawl ends with the seed as
  the only URL fetched and \<^verbatim>\<open>/a\<close> never claimed.
\<close>

theorem C5_links_despite_storage_failure_counterexample:
  "storage_fails ex_world_ro ex_crawl ''http://example.test/''
   \<and> html_Parse ex_world_ro ''root'' = Some ex_root
   \<and> extractLinks ex_world_ro ex_root ''http://example.test/''
       = [''http://example.test/a'', ''http://other.test/'', ''http://example.test/a#x'']
   \<and> same_host ex_world_ro ex_crawl ''http://example.test/a''
   \<and> reachable ex_world_ro ex_crawl ex_ro_start
   \<and> run ex_world_ro ex_crawl [Worker 0, Worker 0, Seeder, Seeder, Main] ex_ro_start
       = Some ex_ro_final
   \<and> main ex_ro_final = MReturned None
   \<and> fetched ex_ro_final = [''http://example.test/'']
   \<and> \<not> visitedURLs ex_ro_final ''http://example.test/a''"
proof -
  have "storage_fails ex_world_ro ex_crawl ''http://example.test/''"
    by (simp add: storage_fails_def ex_world_ro_def ex_defs)
  moreover have "extractLinks ex_world_ro ex_root ''http://example.test/''
       = [''http://example.test/a'', ''http://other.test/'', ''http://example.test/a#x'']"
    by (simp add: ex_world_ro_def ex_defs fetch_defs)
  moreover have "same_host ex_world_ro ex_crawl ''http://example.test/a''"
    by (simp add: same_host_def link_host_def initialHost_def ex_world_ro_def ex_defs)
  moreover have "html_Parse ex_world_ro ''root'' = Some ex_root"
    by (simp add: ex_world_ro_def ex_world_def)
  ultimately show ?thesis
    using ex_ro_start_reachable ex_run_ro_final
    by (simp add: ex_ro_final_def fetched_def)
qed



text \<open>
  Claim C9. Every URL discovered on a page is in the output of \<^verbatim>\<open>extractLinks\<close>, whatever
  its host: the extractor does not look at hosts. In every reachable state of a crawl, a
  URL string whose host (as \<^verbatim>\<open>url.Parse\<close> gives it) is not the seed's host is not in the
  queue, has no worker, and has not been fetched.
\<close>

theorem C9_other_hosts_found_not_queued:
  "(discovered W n baseURL u \<longrightarrow> u \<in> set (extractLinks W n baseURL))
   \<and> (reachable W C s \<and> link_host W u \<noteq> Some (initialHost W C) \<longrightarrow>
        u \<notin> url ` set (queue s) \<and> u \<notin> set (invoked s) \<and> u \<notin> set (fetched s))"
proof -
  have "u \<notin> url ` set (queue s) \<and> u \<notin> set (invoked s) \<and> u \<notin> set (fetched s)"
    if r: "reachable W C s" and h: "link_host W u \<noteq> Some (initialHost W C)"
  proof -
    from reachable_in_domain_only [OF r]
    have q: "\<forall>t \<in> set (queue s). same_host W C (url t)"
      and w: "\<forall>w \<in> set (workers s). same_host W C (currentURL w)"
      by (simp_all add: in_domain_only_def)
    from h have "\<not> same_host W C u" by (simp add: same_host_def)
    with q w show ?thesis
      by (auto simp: invoked_def fetched_def)
  qed
  then show ?thesis
    by (simp add: set_extractLinks)
qed

theorem C9_other_hosts_found_not_queued_witness:
  "discovered ex_world ex_root ''http://example.test/'' ''http://other.test/''
   \<and> ''http://other.test/'' \<in> set (extractLinks ex_world ex_root ''http://example.test/'')
   \<and> reachable ex_world ex_crawl ex_final
   \<and> link_host ex_world ''http://other.test/'' \<noteq> Some (initialHost ex_world ex_crawl)
   \<and> ''http://other.test/'' \<notin> set (fetched ex_final)"
proof -
  have l: "extractLinks ex_world ex_root ''http://example.test/''
        = [''http://example.test/a'', ''http://other.test/'', ''http://example.test/a#x'']"
    by (simp add: ex_defs fetch_defs)
  then have d: "discovered ex_world ex_root ''http://example.test/'' ''http://other.test/''"
    using set_extractLinks [of ex_world ex_root "''http://example.test/''"] by auto
  have h: "link_host ex_world ''http://other.test/'' \<noteq> Some (initialHost ex_world ex_crawl)"
    by (simp add: link_host_def initialHost_def ex_defs)
  from C9_other_hosts_found_not_queued
    [of ex_world ex_root "''http://example.test/''" "''http://other.test/''" ex_crawl ex_final]
    d h ex_final_reachable
  show ?thesis by simp
qed

text \<open>
  Claim C10. The visited map is keyed on the URL string as it stands. Whenever the loop
  holds, under the mutex, a task whose URL string is not in the map and whose depth is
  within the bound, it claims exactly that string and a worker fetches it, whichever
  other strings are in the map already. So two strings that name the same page (such as
  \<^verbatim>\<open>/a\<close> and \<^verbatim>\<open>/a#x\<close>) are claimed independently and each is fetched.
\<close>

theorem C10_visited_keyed_on_exact_string:
  "reachable W C s \<and> main s = MCheck t \<and> \<not> visitedURLs s (url t) \<and> depth t \<le> maxDepth C \<longrightarrow>
     (\<exists>s'. run W C [Main, Main, Worker (length (workers s))] s = Some s'
           \<and> visitedURLs s' = (visitedURLs s)(url t := True)
           \<and> fetched s' = fetched s @ [url t])"
proof -
  have "\<exists>s'. run W C [Main, Main, Worker (length (workers s))] s = Some s'
           \<and> visitedURLs s' = (visitedURLs s)(url t := True)
           \<and> fetched s' = fetched s @ [url t]"
    if r: "reachable W C s" and m: "main s = MCheck t" and v: "\<not> visitedURLs s (url t)"
      and d: "depth t \<le> maxDepth C"
  proof -
    from reachable_wg_pos(1) [OF r] have p: "\<not> panicked s" .
    show ?thesis
    proof (cases "fetchAndProcess_io W C (url t) (initialHost W C)")
      case (Inl e)
      with p m v d show ?thesis
        by (simp add: step_fn_def main_step_def worker_step_def set_pc_def fetched_def
                      nth_append)
    next
      case (Inr res)
      with p m v d show ?thesis
        by (cases res)
           (simp add: step_fn_def main_step_def worker_step_def set_pc_def fetched_def
                      nth_append split: prod.splits)
    qed
  qed
  then show ?thesis by blast
qed

theorem C10_visited_keyed_on_exact_string_witness:
  "reachable ex_world ex_crawl ex_second
   \<and> main ex_second = MCheck (Task ''http://example.test/a#x'' 1)
   \<and> visitedURLs ex_second ''http://example.test/a''
   \<and> \<not> visitedURLs ex_second ''http://example.test/a#x''
   \<and> http_Get ex_world ''http://example.test/a'' = http_Get ex_world ''http://example.test/a#x''
   \<and> run ex_world ex_crawl [Main, Main, Worker 2] ex_second = Some ex_third
   \<and> fetched ex_third =
       [''http://example.test/'', ''http://example.test/a'', ''http://example.test/a#x'']"
  using C10_visited_keyed_on_exact_string
    [of ex_world ex_crawl ex_second "Task ''http://example.test/a#x'' 1"]
    ex_second_reachable ex_run2
  by (simp add: ex_second_def ex_third_def fetched_def ex_world_def ex_crawl_def)

end
